theory Spec2Isabelle
  imports Main
begin

section \<open>JavaScript values\<close>

text \<open>
  A thrown JavaScript exception is a value of type \<open>error\<close>. \<open>Error msg\<close> is
  \<^verbatim>\<open>new Error(msg)\<close>, the only exception the module constructs itself.
  \<open>TypeError\<close> and \<open>SyntaxError\<close> are exceptions of the runtime (a property read
  on a value that is not an object, a malformed JSON text); their messages differ between
  engines and are left out.
\<close>

datatype error = Error string | TypeError | SyntaxError

text \<open>
  A JavaScript string is a sequence of 16-bit code units, here naturals below 65536.
  \<open>utf16\<close> gives the code units of an ASCII literal.
\<close>

type_synonym jsstring = "nat list"

definition utf16 :: "string \<Rightarrow> jsstring" where
  "utf16 s = map of_char s"

text \<open>
  Numbers. Floating-point arithmetic is not modelled: a finite number other than zero
  is named by the decimal that \<^verbatim>\<open>Number.prototype.toString\<close> prints for it, the sign,
  the digits \<open>s\<close> (most significant first, neither the first nor the last is 0) and
  the exponent \<open>n\<close> of ECMAScript's Number::toString, so that the value is
  \<open>0.s \<times> 10\<^sup>n\<close>. Different numbers print differently, so this names every finite
  double exactly once; the type also holds decimals that are no double. 10 is
  \<open>Decimal False [1] 2\<close>, 0.5 is \<open>Decimal False [5] 0\<close>.
\<close>

datatype number = Zero | MinusZero | Decimal bool "nat list" int | NaN | PlusInfinity | MinusInfinity

text \<open>
  Values. An object is its own data properties, in the order of
  \<^verbatim>\<open>Reflect.ownKeys\<close>, and its prototype (an object or \<open>VNull\<close>); an array is its
  elements and its prototype; a function is an object that can be called, known by a
  name (the module never calls one). Every property is an enumerable, writable data
  property with a string key: accessor properties, symbols, sparse arrays and frozen
  objects are not part of the type. Objects are values here, not references: \<^verbatim>\<open>fromJSON\<close> is
  the only holder of the object it has just parsed, and it changes no other object.
\<close>

datatype jsvalue =
    VUndefined
  | VNull
  | VBoolean bool
  | VNumber number
  | VString jsstring
  | VObject "(jsstring \<times> jsvalue) list" jsvalue
  | VArray "jsvalue list" jsvalue
  | VFunction string "(jsstring \<times> jsvalue) list" jsvalue

fun is_object :: "jsvalue \<Rightarrow> bool" where
  "is_object (VObject properties proto) = True"
| "is_object (VArray elements proto) = True"
| "is_object (VFunction f properties proto) = True"
| "is_object _ = False"

text \<open>Decimal digits, the decimal numeral of a natural number and its value.\<close>

definition is_digit :: "nat \<Rightarrow> bool" where
  "is_digit c = (48 \<le> c \<and> c \<le> 57)"

fun decimal_value :: "jsstring \<Rightarrow> nat" where
  "decimal_value cs = foldl (\<lambda>n c. 10 * n + (c - 48)) 0 cs"

function decimal :: "nat \<Rightarrow> jsstring" where
  "decimal n = (if n < 10 then [48 + n] else decimal (n div 10) @ [48 + n mod 10])"
  by pat_completeness auto
termination
  by (relation "measure id") auto

declare decimal.simps [simp del]

text \<open>The number that is a natural number (the \<^verbatim>\<open>length\<close> of an array).\<close>

definition strip_zeros :: "nat list \<Rightarrow> nat list" where
  "strip_zeros ds = rev (dropWhile (\<lambda>d. d = 0) (rev ds))"

definition number_of_nat :: "nat \<Rightarrow> number" where
  "number_of_nat n =
     (if n = 0 then Zero
      else Decimal False (strip_zeros (map (\<lambda>c. c - 48) (decimal n))) (int (length (decimal n))))"

text \<open>
  An array index is a property key that is the canonical numeral of a natural number
  below \<open>2\<^sup>3\<^sup>2 - 1\<close>.
\<close>

definition array_index :: "jsstring \<Rightarrow> nat option" where
  "array_index k =
     (if k \<noteq> [] \<and> list_all is_digit k \<and> (hd k \<noteq> 48 \<or> length k = 1)
         \<and> decimal_value k < 4294967295
      then Some (decimal_value k) else None)"

text \<open>
  Reading the property \<open>k\<close> of an object: its own property when it has one, else the
  property of its prototype, \<^verbatim>\<open>undefined\<close> at the end of the chain.
\<close>

fun Get :: "jsvalue \<Rightarrow> jsstring \<Rightarrow> jsvalue" where
  "Get (VObject properties proto) k =
     (case map_of properties k of Some v \<Rightarrow> v | None \<Rightarrow> Get proto k)"
| "Get (VFunction f properties proto) k =
     (case map_of properties k of Some v \<Rightarrow> v | None \<Rightarrow> Get proto k)"
| "Get (VArray elements proto) k =
     (case array_index k of
        Some i \<Rightarrow> (if i < length elements then elements ! i else Get proto k)
      | None \<Rightarrow>
          (if k = utf16 ''length'' then VNumber (number_of_nat (length elements))
           else Get proto k))"
| "Get _ k = VUndefined"

fun callable :: "jsvalue \<Rightarrow> bool" where
  "callable (VFunction f properties proto) = True"
| "callable _ = False"

fun own_properties :: "jsvalue \<Rightarrow> (jsstring \<times> jsvalue) list" where
  "own_properties (VObject properties proto) = properties"
| "own_properties (VFunction f properties proto) = properties"
| "own_properties (VArray elements proto) =
     zip (map decimal [0..<length elements]) elements
       @ [(utf16 ''length'', VNumber (number_of_nat (length elements)))]"
| "own_properties _ = []"

text \<open>
  \<^verbatim>\<open>Object.setPrototypeOf(obj, proto)\<close> of the runtime, by the steps of ECMAScript:
  a TypeError when \<open>obj\<close> is undefined or null, a TypeError when \<open>proto\<close> is neither an
  object nor null, \<open>obj\<close> returned as it is when it is a primitive value, and otherwise
  the object with its prototype replaced. The result is the state of \<open>obj\<close> after the
  call. (The assignment itself fails only on an object that is not extensible or that
  occurs in the prototype chain of \<open>proto\<close>; values of this type are neither.)
\<close>

definition Object_setPrototypeOf :: "jsvalue \<Rightarrow> jsvalue \<Rightarrow> error + jsvalue" where
  "Object_setPrototypeOf obj proto =
     (if obj = VUndefined \<or> obj = VNull then Inl TypeError
      else if \<not> (is_object proto \<or> proto = VNull) then Inl TypeError
      else (case obj of
              VObject properties p \<Rightarrow> Inr (VObject properties proto)
            | VArray elements p \<Rightarrow> Inr (VArray elements proto)
            | VFunction f properties p \<Rightarrow> Inr (VFunction f properties proto)
            | _ \<Rightarrow> Inr obj))"

text \<open>
  What the model leaves to the runtime: the built-in objects \<^verbatim>\<open>Object.prototype\<close>
  and \<^verbatim>\<open>Array.prototype\<close> that parsed objects and arrays inherit from (any program
  may have changed them), and the two places where \<^verbatim>\<open>JSON.stringify\<close> and
  \<^verbatim>\<open>JSON.parse\<close> call functions of the program: the serialization of a value that
  has a \<^verbatim>\<open>toJSON\<close> method, and the conversion of an object to a string.
\<close>

record runtime =
  Object_prototype :: jsvalue
  Array_prototype :: jsvalue
  SerializeByToJSON :: "jsvalue \<Rightarrow> error + jsstring option"
  ObjectToString :: "jsvalue \<Rightarrow> error + jsstring"

section \<open>The runtime's JSON.stringify\<close>

text \<open>
  \<^verbatim>\<open>JSON.stringify(value)\<close> by the steps of ECMAScript, called with one argument (no
  replacer, no indentation). QuoteJSONString escapes the quotation mark, the reverse
  solidus, the control characters and the surrogates that have no partner.
\<close>

definition hex_digit :: "nat \<Rightarrow> nat" where
  "hex_digit d = (if d < 10 then 48 + d else 87 + d)"

definition unicode_escape :: "nat \<Rightarrow> jsstring" where
  "unicode_escape c =
     [0x5C, 0x75, hex_digit (c div 4096 mod 16), hex_digit (c div 256 mod 16),
      hex_digit (c div 16 mod 16), hex_digit (c mod 16)]"

definition is_leading_surrogate :: "nat \<Rightarrow> bool" where
  "is_leading_surrogate c = (0xD800 \<le> c \<and> c \<le> 0xDBFF)"

definition is_trailing_surrogate :: "nat \<Rightarrow> bool" where
  "is_trailing_surrogate c = (0xDC00 \<le> c \<and> c \<le> 0xDFFF)"

definition short_escape :: "nat \<Rightarrow> nat option" where
  "short_escape c =
     (if c = 0x08 then Some 0x62
      else if c = 0x09 then Some 0x74
      else if c = 0x0A then Some 0x6E
      else if c = 0x0C then Some 0x66
      else if c = 0x0D then Some 0x72
      else if c = 0x22 then Some 0x22
      else if c = 0x5C then Some 0x5C
      else None)"

fun quote_units :: "jsstring \<Rightarrow> jsstring" where
  "quote_units [] = []"
| "quote_units (c # cs) =
     (case short_escape c of
        Some e \<Rightarrow> [0x5C, e] @ quote_units cs
      | None \<Rightarrow>
          (if c < 0x20 then unicode_escape c @ quote_units cs
           else if is_leading_surrogate c then
             (case cs of
                [] \<Rightarrow> unicode_escape c
              | d # ds \<Rightarrow>
                  (if is_trailing_surrogate d then c # d # quote_units ds
                   else unicode_escape c @ quote_units cs))
           else if is_trailing_surrogate c then unicode_escape c @ quote_units cs
           else c # quote_units cs))"

definition QuoteJSONString :: "jsstring \<Rightarrow> jsstring" where
  "QuoteJSONString s = [0x22] @ quote_units s @ [0x22]"

text \<open>
  Number::toString of ECMAScript for radix 10, on the digits \<open>s\<close> and the exponent
  \<open>n\<close> of a number (\<open>k\<close> is the number of digits).
\<close>

fun is_finite :: "number \<Rightarrow> bool" where
  "is_finite Zero = True"
| "is_finite MinusZero = True"
| "is_finite (Decimal negative digits n) = True"
| "is_finite _ = False"

definition digit_chars :: "nat list \<Rightarrow> jsstring" where
  "digit_chars ds = map (\<lambda>d. 48 + d) ds"

definition exponent_chars :: "int \<Rightarrow> jsstring" where
  "exponent_chars e = [0x65] @ (if e < 0 then [0x2D] else [0x2B]) @ decimal (nat \<bar>e\<bar>)"

definition format_decimal :: "nat list \<Rightarrow> int \<Rightarrow> jsstring" where
  "format_decimal ds n =
     (let k = int (length ds)
      in if k \<le> n \<and> n \<le> 21 then digit_chars ds @ replicate (nat (n - k)) 48
         else if 0 < n \<and> n \<le> 21
           then digit_chars (take (nat n) ds) @ [0x2E] @ digit_chars (drop (nat n) ds)
         else if -6 < n \<and> n \<le> 0
           then [48, 0x2E] @ replicate (nat (- n)) 48 @ digit_chars ds
         else if k = 1 then digit_chars ds @ exponent_chars (n - 1)
         else digit_chars (take 1 ds) @ [0x2E] @ digit_chars (drop 1 ds) @ exponent_chars (n - 1))"

fun Number_toString :: "number \<Rightarrow> jsstring" where
  "Number_toString NaN = utf16 ''NaN''"
| "Number_toString PlusInfinity = utf16 ''Infinity''"
| "Number_toString MinusInfinity = utf16 ''-Infinity''"
| "Number_toString Zero = utf16 ''0''"
| "Number_toString MinusZero = utf16 ''0''"
| "Number_toString (Decimal negative ds n) =
     (if negative then [0x2D] else []) @ format_decimal ds n"

text \<open>
  SerializeJSONProperty: \<open>None\<close> is \<^verbatim>\<open>undefined\<close> (the property is left out of an
  object and written \<^verbatim>\<open>null\<close> in an array). A value with a callable \<^verbatim>\<open>toJSON\<close> is
  serialized by the program's function, which is the runtime's part.
\<close>

fun join :: "jsstring \<Rightarrow> jsstring list \<Rightarrow> jsstring" where
  "join sep [] = []"
| "join sep [t] = t"
| "join sep (t # ts) = t @ sep @ join sep ts"

fun first_error :: "(error + 'a) list \<Rightarrow> error + 'a list" where
  "first_error [] = Inr []"
| "first_error (Inl e # rs) = Inl e"
| "first_error (Inr x # rs) = (case first_error rs of Inl e \<Rightarrow> Inl e | Inr xs \<Rightarrow> Inr (x # xs))"

fun SerializeJSONProperty :: "runtime \<Rightarrow> jsvalue \<Rightarrow> error + jsstring option" where
  "SerializeJSONProperty rt VUndefined = Inr None"
| "SerializeJSONProperty rt VNull = Inr (Some (utf16 ''null''))"
| "SerializeJSONProperty rt (VBoolean b) = Inr (Some (utf16 (if b then ''true'' else ''false'')))"
| "SerializeJSONProperty rt (VNumber n) =
     Inr (Some (if is_finite n then Number_toString n else utf16 ''null''))"
| "SerializeJSONProperty rt (VString s) = Inr (Some (QuoteJSONString s))"
| "SerializeJSONProperty rt (VFunction f properties proto) =
     (if callable (Get (VFunction f properties proto) (utf16 ''toJSON''))
      then SerializeByToJSON rt (VFunction f properties proto)
      else Inr None)"
| "SerializeJSONProperty rt (VObject properties proto) =
     (if callable (Get (VObject properties proto) (utf16 ''toJSON''))
      then SerializeByToJSON rt (VObject properties proto)
      else (case first_error
                   (map (\<lambda>(k, v). case SerializeJSONProperty rt v of
                                      Inl e \<Rightarrow> Inl e
                                    | Inr None \<Rightarrow> Inr None
                                    | Inr (Some t) \<Rightarrow> Inr (Some (QuoteJSONString k @ [0x3A] @ t)))
                        properties) of
              Inl e \<Rightarrow> Inl e
            | Inr members \<Rightarrow>
                Inr (Some ([0x7B] @ join [0x2C] (List.map_filter id members) @ [0x7D]))))"
| "SerializeJSONProperty rt (VArray elements proto) =
     (if callable (Get (VArray elements proto) (utf16 ''toJSON''))
      then SerializeByToJSON rt (VArray elements proto)
      else (case first_error
                   (map (\<lambda>v. case SerializeJSONProperty rt v of
                                 Inl e \<Rightarrow> Inl e
                               | Inr None \<Rightarrow> Inr (utf16 ''null'')
                               | Inr (Some t) \<Rightarrow> Inr t)
                        elements) of
              Inl e \<Rightarrow> Inl e
            | Inr items \<Rightarrow> Inr (Some ([0x5B] @ join [0x2C] items @ [0x5D]))))"

definition ecma_JSON_stringify :: "runtime \<Rightarrow> jsvalue \<Rightarrow> error + jsvalue" where
  "ecma_JSON_stringify rt v =
     (case SerializeJSONProperty rt v of
        Inl e \<Rightarrow> Inl e
      | Inr None \<Rightarrow> Inr VUndefined
      | Inr (Some t) \<Rightarrow> Inr (VString t))"

section \<open>The runtime's JSON.parse\<close>

text \<open>
  \<^verbatim>\<open>JSON.parse(text)\<close> by the JSON grammar (ECMA-404), called with one argument (no
  reviver). The string of a JSON text: the code units up to the closing quotation mark,
  with the escapes replaced.
\<close>

definition is_whitespace :: "nat \<Rightarrow> bool" where
  "is_whitespace c = (c = 0x09 \<or> c = 0x0A \<or> c = 0x0D \<or> c = 0x20)"

definition skip_whitespace :: "jsstring \<Rightarrow> jsstring" where
  "skip_whitespace cs = dropWhile is_whitespace cs"

definition hex_value :: "nat \<Rightarrow> nat option" where
  "hex_value c =
     (if 48 \<le> c \<and> c \<le> 57 then Some (c - 48)
      else if 97 \<le> c \<and> c \<le> 102 then Some (c - 87)
      else if 65 \<le> c \<and> c \<le> 70 then Some (c - 55)
      else None)"

definition simple_escape :: "nat \<Rightarrow> nat option" where
  "simple_escape e =
     (if e = 0x22 then Some 0x22
      else if e = 0x5C then Some 0x5C
      else if e = 0x2F then Some 0x2F
      else if e = 0x62 then Some 0x08
      else if e = 0x66 then Some 0x0C
      else if e = 0x6E then Some 0x0A
      else if e = 0x72 then Some 0x0D
      else if e = 0x74 then Some 0x09
      else None)"

definition cons_unit :: "nat \<Rightarrow> (jsstring \<times> jsstring) option \<Rightarrow> (jsstring \<times> jsstring) option" where
  "cons_unit u res = (case res of None \<Rightarrow> None | Some (s, rest) \<Rightarrow> Some (u # s, rest))"

fun parse_units :: "jsstring \<Rightarrow> (jsstring \<times> jsstring) option" where
  "parse_units [] = None"
| "parse_units (c # cs) =
     (if c = 0x22 then Some ([], cs)
      else if c = 0x5C then
        (case cs of
           [] \<Rightarrow> None
         | e # es \<Rightarrow>
             (if e = 0x75 then
                (case es of
                   a # b # c' # d # rest \<Rightarrow>
                     (case (hex_value a, hex_value b, hex_value c', hex_value d) of
                        (Some x, Some y, Some z, Some w) \<Rightarrow>
                          cons_unit (x * 4096 + y * 256 + z * 16 + w) (parse_units rest)
                      | _ \<Rightarrow> None)
                 | _ \<Rightarrow> None)
              else (case simple_escape e of
                      None \<Rightarrow> None
                    | Some u \<Rightarrow> cons_unit u (parse_units es))))
      else if c < 0x20 then None
      else cons_unit c (parse_units cs))"

text \<open>
  A number of a JSON text is the longest run of the characters that numbers are written
  with; it is accepted when it has the form
  \<^verbatim>\<open>-? (0 | [1-9][0-9]*) (. [0-9]+)? ([eE] [+-]? [0-9]+)?\<close>. Its value is read exactly,
  as sign, digits and exponent: rounding to the nearest double (and to infinity or zero
  beyond the range of the doubles) is not modelled, so a literal that no double prints as
  is read as a decimal that is no double.
\<close>

definition is_number_char :: "nat \<Rightarrow> bool" where
  "is_number_char c = (is_digit c \<or> c = 0x2B \<or> c = 0x2D \<or> c = 0x2E \<or> c = 0x45 \<or> c = 0x65)"

definition valid_exponent :: "jsstring \<Rightarrow> bool" where
  "valid_exponent r =
     (case r of
        [] \<Rightarrow> True
      | c # r' \<Rightarrow>
          (c = 0x45 \<or> c = 0x65)
          \<and> (let digits = (case r' of
                               [] \<Rightarrow> []
                             | s # r'' \<Rightarrow> if s = 0x2B \<or> s = 0x2D then r'' else r')
             in digits \<noteq> [] \<and> list_all is_digit digits))"

definition exponent_value :: "jsstring \<Rightarrow> int" where
  "exponent_value r =
     (case r of
        [] \<Rightarrow> 0
      | c # r' \<Rightarrow>
          (case r' of
             [] \<Rightarrow> 0
           | s # r'' \<Rightarrow>
               if s = 0x2D then - int (decimal_value r'')
               else if s = 0x2B then int (decimal_value r'')
               else int (decimal_value r')))"

definition split_literal :: "jsstring \<Rightarrow> bool \<times> jsstring \<times> bool \<times> jsstring \<times> jsstring" where
  "split_literal t =
     (let negative = (case t of [] \<Rightarrow> False | c # r \<Rightarrow> c = 0x2D);
          t' = (if negative then tl t else t);
          int_part = takeWhile is_digit t';
          r1 = dropWhile is_digit t';
          has_fraction = (case r1 of [] \<Rightarrow> False | c # r \<Rightarrow> c = 0x2E);
          fraction = (if has_fraction then takeWhile is_digit (tl r1) else []);
          r2 = (if has_fraction then dropWhile is_digit (tl r1) else r1)
      in (negative, int_part, has_fraction, fraction, r2))"

definition valid_number :: "jsstring \<Rightarrow> bool" where
  "valid_number t =
     (case split_literal t of
        (negative, int_part, has_fraction, fraction, r2) \<Rightarrow>
          int_part \<noteq> [] \<and> (hd int_part = 48 \<longrightarrow> length int_part = 1)
          \<and> (has_fraction \<longrightarrow> fraction \<noteq> []) \<and> valid_exponent r2)"

definition make_number :: "bool \<Rightarrow> jsstring \<Rightarrow> jsstring \<Rightarrow> int \<Rightarrow> number" where
  "make_number negative int_part fraction e =
     (let ds = map (\<lambda>c. c - 48) (int_part @ fraction);
          significant = dropWhile (\<lambda>d. d = 0) ds
      in if significant = [] then (if negative then MinusZero else Zero)
         else Decimal negative (strip_zeros significant)
                (int (length int_part) + e - int (length ds - length significant)))"

definition StringToNumber :: "jsstring \<Rightarrow> number" where
  "StringToNumber t =
     (case split_literal t of
        (negative, int_part, has_fraction, fraction, r2) \<Rightarrow>
          make_number negative int_part fraction (exponent_value r2))"

text \<open>
  The properties of a parsed object are created in the order of the text by
  CreateDataProperty on an ordinary object: a key that exists keeps its place and takes
  the new value, an array index goes among the array indices in ascending order, before
  every other key, and any other key goes last.
\<close>

definition starts_with :: "jsstring \<Rightarrow> jsstring \<Rightarrow> bool" where
  "starts_with kw cs = (take (length kw) cs = kw)"

fun insert_index :: "nat \<Rightarrow> jsstring \<Rightarrow> jsvalue \<Rightarrow> (jsstring \<times> jsvalue) list
    \<Rightarrow> (jsstring \<times> jsvalue) list" where
  "insert_index i k v [] = [(k, v)]"
| "insert_index i k v ((k', v') # ps) =
     (case array_index k' of
        Some j \<Rightarrow> (if j < i then (k', v') # insert_index i k v ps else (k, v) # (k', v') # ps)
      | None \<Rightarrow> (k, v) # (k', v') # ps)"

definition CreateDataProperty :: "jsstring \<Rightarrow> jsvalue \<Rightarrow> (jsstring \<times> jsvalue) list
    \<Rightarrow> (jsstring \<times> jsvalue) list" where
  "CreateDataProperty k v ps =
     (if k \<in> fst ` set ps then map (\<lambda>(k', v'). if k' = k then (k', v) else (k', v')) ps
      else (case array_index k of
              Some i \<Rightarrow> insert_index i k v ps
            | None \<Rightarrow> ps @ [(k, v)]))"

definition create_properties :: "(jsstring \<times> jsvalue) list \<Rightarrow> (jsstring \<times> jsvalue) list" where
  "create_properties ms = foldl (\<lambda>ps (k, v). CreateDataProperty k v ps) [] ms"

text \<open>
  The parser. Its second argument bounds the depth of the calls; a text of \<open>n\<close> code
  units needs no more than \<open>n\<close>, which is what \<open>ecma_JSON_parse\<close> gives. \<open>None\<close>
  is a SyntaxError.
\<close>

fun parse_value :: "runtime \<Rightarrow> nat \<Rightarrow> jsstring \<Rightarrow> (jsvalue \<times> jsstring) option"
  and parse_elements :: "runtime \<Rightarrow> nat \<Rightarrow> jsstring \<Rightarrow> (jsvalue list \<times> jsstring) option"
  and parse_members ::
    "runtime \<Rightarrow> nat \<Rightarrow> jsstring \<Rightarrow> ((jsstring \<times> jsvalue) list \<times> jsstring) option" where
  "parse_value rt 0 cs = None"
| "parse_value rt (Suc n) cs =
     (case skip_whitespace cs of
        [] \<Rightarrow> None
      | c # r \<Rightarrow>
          (if c = 0x7B then
             (case skip_whitespace r of
                [] \<Rightarrow> None
              | d # r' \<Rightarrow>
                  (if d = 0x7D then Some (VObject [] (Object_prototype rt), r')
                   else (case parse_members rt n (d # r') of
                           None \<Rightarrow> None
                         | Some (ms, r'') \<Rightarrow>
                             Some (VObject (create_properties ms) (Object_prototype rt), r''))))
           else if c = 0x5B then
             (case skip_whitespace r of
                [] \<Rightarrow> None
              | d # r' \<Rightarrow>
                  (if d = 0x5D then Some (VArray [] (Array_prototype rt), r')
                   else (case parse_elements rt n (d # r') of
                           None \<Rightarrow> None
                         | Some (vs, r'') \<Rightarrow> Some (VArray vs (Array_prototype rt), r''))))
           else if c = 0x22 then
             (case parse_units r of None \<Rightarrow> None | Some (s, r') \<Rightarrow> Some (VString s, r'))
           else if starts_with (utf16 ''true'') (c # r) then Some (VBoolean True, drop 4 (c # r))
           else if starts_with (utf16 ''false'') (c # r) then Some (VBoolean False, drop 5 (c # r))
           else if starts_with (utf16 ''null'') (c # r) then Some (VNull, drop 4 (c # r))
           else (let lexeme = takeWhile is_number_char (c # r)
                 in if valid_number lexeme
                    then Some (VNumber (StringToNumber lexeme), dropWhile is_number_char (c # r))
                    else None)))"
| "parse_elements rt 0 cs = None"
| "parse_elements rt (Suc n) cs =
     (case parse_value rt n cs of
        None \<Rightarrow> None
      | Some (v, r) \<Rightarrow>
          (case skip_whitespace r of
             [] \<Rightarrow> None
           | c # r' \<Rightarrow>
               (if c = 0x2C then
                  (case parse_elements rt n r' of
                     None \<Rightarrow> None
                   | Some (vs, r'') \<Rightarrow> Some (v # vs, r''))
                else if c = 0x5D then Some ([v], r')
                else None)))"
| "parse_members rt 0 cs = None"
| "parse_members rt (Suc n) cs =
     (case skip_whitespace cs of
        [] \<Rightarrow> None
      | c # r \<Rightarrow>
          (if c = 0x22 then
             (case parse_units r of
                None \<Rightarrow> None
              | Some (k, r1) \<Rightarrow>
                  (case skip_whitespace r1 of
                     [] \<Rightarrow> None
                   | c1 # r2 \<Rightarrow>
                       (if c1 = 0x3A then
                          (case parse_value rt n r2 of
                             None \<Rightarrow> None
                           | Some (v, r3) \<Rightarrow>
                               (case skip_whitespace r3 of
                                  [] \<Rightarrow> None
                                | c3 # r4 \<Rightarrow>
                                    (if c3 = 0x2C then
                                       (case parse_members rt n r4 of
                                          None \<Rightarrow> None
                                        | Some (ms, r5) \<Rightarrow> Some ((k, v) # ms, r5))
                                     else if c3 = 0x7D then Some ([(k, v)], r4)
                                     else None)))
                        else None)))
           else None))"

text \<open>\<^verbatim>\<open>JSON.parse\<close> converts its argument to a string first.\<close>

definition ToString :: "runtime \<Rightarrow> jsvalue \<Rightarrow> error + jsstring" where
  "ToString rt v =
     (case v of
        VUndefined \<Rightarrow> Inr (utf16 ''undefined'')
      | VNull \<Rightarrow> Inr (utf16 ''null'')
      | VBoolean b \<Rightarrow> Inr (utf16 (if b then ''true'' else ''false''))
      | VNumber n \<Rightarrow> Inr (Number_toString n)
      | VString s \<Rightarrow> Inr s
      | _ \<Rightarrow> ObjectToString rt v)"

definition ecma_JSON_parse :: "runtime \<Rightarrow> jsvalue \<Rightarrow> error + jsvalue" where
  "ecma_JSON_parse rt json =
     (case ToString rt json of
        Inl e \<Rightarrow> Inl e
      | Inr t \<Rightarrow>
          (case parse_value rt (Suc (length t)) t of
             None \<Rightarrow> Inl SyntaxError
           | Some (v, rest) \<Rightarrow> if skip_whitespace rest = [] then Inr v else Inl SyntaxError))"

text \<open>
  A sample runtime, to state results at concrete inputs: an \<^verbatim>\<open>Object.prototype\<close> with
  three of its methods (a value cannot contain itself, so the functions of the sample
  inherit from nothing), an empty \<^verbatim>\<open>Array.prototype\<close>, and no function of the program
  that could be called. \<open>Template\<close> is a prototype with one method, as
  \<^verbatim>\<open>Circle.prototype\<close> in the example of the source.
\<close>

definition Object_prototype_sample :: jsvalue where
  "Object_prototype_sample =
     VObject [(utf16 ''hasOwnProperty'', VFunction ''hasOwnProperty'' [] VNull),
              (utf16 ''toString'', VFunction ''toString'' [] VNull),
              (utf16 ''valueOf'', VFunction ''valueOf'' [] VNull)] VNull"

definition sample_runtime :: runtime where
  "sample_runtime =
     \<lparr> Object_prototype = Object_prototype_sample,
       Array_prototype = VArray [] Object_prototype_sample,
       SerializeByToJSON = (\<lambda>v. Inl TypeError),
       ObjectToString = (\<lambda>v. Inr (utf16 ''[object Object]'')) \<rparr>"

definition Template :: jsvalue where
  "Template =
     VObject [(utf16 ''getArea'', VFunction ''getArea'' [] VNull)] Object_prototype_sample"

section \<open>JSON-representable values\<close>

text \<open>
  A value is JSON-representable when it is null, a boolean, a string, a finite number
  other than -0, or an array or a plain object of such values: a plain object inherits
  from \<^verbatim>\<open>Object.prototype\<close>, an array from \<^verbatim>\<open>Array.prototype\<close>, and neither has a
  \<^verbatim>\<open>toJSON\<close> method. The other conditions say that the value is one a JavaScript
  program can hold: code units below 65536, digits of a number as Number::toString
  chooses them, keys without repetition in the order of \<^verbatim>\<open>Reflect.ownKeys\<close>.
\<close>

definition wf_string :: "jsstring \<Rightarrow> bool" where
  "wf_string s = list_all (\<lambda>c. c < 65536) s"

fun key_order :: "jsstring list \<Rightarrow> bool" where
  "key_order [] = True"
| "key_order [k] = True"
| "key_order (k # k' # ks) =
     ((case array_index k' of
         Some j \<Rightarrow> (case array_index k of Some i \<Rightarrow> i < j | None \<Rightarrow> False)
       | None \<Rightarrow> True)
      \<and> key_order (k' # ks))"

definition is_number_literal :: "jsstring \<Rightarrow> bool" where
  "is_number_literal t = (t \<noteq> [] \<and> list_all is_number_char t \<and> valid_number t)"

fun wf_number :: "number \<Rightarrow> bool" where
  "wf_number Zero = True"
| "wf_number (Decimal negative ds n) =
     (ds \<noteq> [] \<and> list_all (\<lambda>d. d < 10) ds \<and> hd ds \<noteq> 0 \<and> last ds \<noteq> 0)"
| "wf_number _ = False"

fun representable :: "runtime \<Rightarrow> jsvalue \<Rightarrow> bool" where
  "representable rt VUndefined = False"
| "representable rt VNull = True"
| "representable rt (VBoolean b) = True"
| "representable rt (VNumber n) = wf_number n"
| "representable rt (VString s) = wf_string s"
| "representable rt (VFunction f properties proto) = False"
| "representable rt (VObject properties proto) =
     (proto = Object_prototype rt
      \<and> \<not> callable (Get (VObject properties proto) (utf16 ''toJSON''))
      \<and> distinct (map fst properties) \<and> key_order (map fst properties)
      \<and> (\<forall>p \<in> set properties. wf_string (fst p) \<and> representable rt (snd p)))"
| "representable rt (VArray elements proto) =
     (proto = Array_prototype rt
      \<and> \<not> callable (Get (VArray elements proto) (utf16 ''toJSON''))
      \<and> (\<forall>v \<in> set elements. representable rt v))"

text \<open>
  For the proofs: the text that \<^verbatim>\<open>JSON.stringify\<close> writes for a value, the code units
  a JSON value can start with, and a rest of the text that does not continue a number.
\<close>

definition JSON_text :: "runtime \<Rightarrow> jsvalue \<Rightarrow> jsstring" where
  "JSON_text rt v = (case SerializeJSONProperty rt v of Inr (Some t) \<Rightarrow> t | _ \<Rightarrow> [])"

definition value_start :: "nat \<Rightarrow> bool" where
  "value_start c =
     (c = 0x7B \<or> c = 0x5B \<or> c = 0x22 \<or> c = 0x74 \<or> c = 0x66 \<or> c = 0x6E \<or> is_number_char c)"

definition terminated :: "jsstring \<Rightarrow> bool" where
  "terminated rest = (case rest of [] \<Rightarrow> True | c # r \<Rightarrow> \<not> is_number_char c)"

text \<open>For the proofs: a code unit put together from its four hexadecimal digits.\<close>

definition hex4_value :: "nat \<Rightarrow> nat" where
  "hex4_value c =
     (c div 4096 mod 16) * 4096 + (c div 256 mod 16) * 256 + (c div 16 mod 16) * 16 + c mod 16"

section \<open>The JSON helpers of the module\<close>

text \<open>
  \<^verbatim>\<open>getJSON\<close> and \<^verbatim>\<open>fromJSON\<close> take the two built-ins as a parameter: a function from
  a value to the value returned (\<open>Inr\<close>) or the exception thrown (\<open>Inl\<close>).
  \<^verbatim>\<open>fromJSON\<close> has no handler: an exception of either built-in leaves the function.
  \<^verbatim>\<open>Object.setPrototypeOf\<close> changes \<open>object\<close> in place; \<open>object'\<close> is its state
  afterwards, which is what the function returns. \<open>fromJSON_getJSON\<close> is the call
  \<^verbatim>\<open>fromJSON(proto, getJSON(obj))\<close>.
\<close>

definition getJSON :: "(jsvalue \<Rightarrow> error + jsvalue) \<Rightarrow> jsvalue \<Rightarrow> error + jsvalue" where
  "getJSON JSON_stringify obj = JSON_stringify obj"

definition fromJSON ::
  "(jsvalue \<Rightarrow> error + jsvalue) \<Rightarrow> jsvalue \<Rightarrow> jsvalue \<Rightarrow> error + jsvalue" where
  "fromJSON JSON_parse proto json =
     (case JSON_parse json of
        Inl e \<Rightarrow> Inl e
      | Inr object \<Rightarrow>
          (case Object_setPrototypeOf object proto of
             Inl e \<Rightarrow> Inl e
           | Inr object' \<Rightarrow> Inr object'))"

definition fromJSON_getJSON ::
  "(jsvalue \<Rightarrow> error + jsvalue) \<Rightarrow> (jsvalue \<Rightarrow> error + jsvalue) \<Rightarrow> jsvalue \<Rightarrow> jsvalue
     \<Rightarrow> error + jsvalue" where
  "fromJSON_getJSON JSON_parse JSON_stringify proto obj =
     (case getJSON JSON_stringify obj of
        Inl e \<Rightarrow> Inl e
      | Inr json \<Rightarrow> fromJSON JSON_parse proto json)"

section \<open>The class Builder\<close>

text \<open>
  The fields of a \<^verbatim>\<open>Builder\<close> object. The constructor creates \<open>hasId\<close>, but the
  methods read and write a property spelled \<^verbatim>\<open>hasID\<close>, which the constructor does not
  create: it is absent (\<open>None\<close>, read as \<^verbatim>\<open>undefined\<close>) until \<^verbatim>\<open>id\<close> assigns it.
\<close>

record builder =
  selectorString :: string
  hasElement :: bool
  hasId :: bool
  hasClass :: bool
  hasAttribute :: bool
  hasPseudoClass :: bool
  hasPseudoElement :: bool
  consistenceError :: string
  numberError :: string
  hasID :: "bool option"

text \<open>The truth value of a property that may be absent: \<^verbatim>\<open>undefined\<close> is falsy.\<close>

fun truthy :: "bool option \<Rightarrow> bool" where
  "truthy None = False"
| "truthy (Some b) = b"

definition consistenceError_text :: string where
  "consistenceError_text =
     ''Selector parts should be arranged in the following order: element, id, class, attribute, pseudo-class, pseudo-element''"

definition numberError_text :: string where
  "numberError_text =
     ''Element, id and pseudo-element should not occur more then one time inside the selector''"

text \<open>\<^verbatim>\<open>new Builder()\<close>: the state the constructor leaves.\<close>

definition new_Builder :: builder where
  "new_Builder =
     \<lparr> selectorString = '''',
       hasElement = False,
       hasId = False,
       hasClass = False,
       hasAttribute = False,
       hasPseudoClass = False,
       hasPseudoElement = False,
       consistenceError = consistenceError_text,
       numberError = numberError_text,
       hasID = None \<rparr>"

text \<open>
  A method takes the state of \<^verbatim>\<open>this\<close> and returns what the call did, paired with the
  state of \<^verbatim>\<open>this\<close> afterwards: \<open>Inl e\<close> when it threw \<open>e\<close>, \<open>Inr ()\<close> when it
  returned \<^verbatim>\<open>this\<close>. The state is returned in both cases, since a JavaScript object
  keeps whatever was assigned before a throw.
\<close>

type_synonym outcome = "(error + unit) \<times> builder"

definition Builder_element :: "string \<Rightarrow> builder \<Rightarrow> outcome" where
  "Builder_element v this =
     (if hasElement this then (Inl (Error (numberError this)), this)
      else if truthy (hasID this) \<or> hasClass this \<or> hasAttribute this \<or> hasPseudoClass this
              \<or> hasPseudoElement this
        then (Inl (Error (consistenceError this)), this)
      else (Inr (), this\<lparr>selectorString := selectorString this @ v, hasElement := True\<rparr>))"

definition Builder_id :: "string \<Rightarrow> builder \<Rightarrow> outcome" where
  "Builder_id v this =
     (if truthy (hasID this) then (Inl (Error (numberError this)), this)
      else if hasClass this \<or> hasAttribute this \<or> hasPseudoClass this \<or> hasPseudoElement this
        then (Inl (Error (consistenceError this)), this)
      else (Inr (), this\<lparr>selectorString := selectorString this @ ''#'' @ v,
                          hasID := Some True\<rparr>))"

definition Builder_pseudoElement :: "string \<Rightarrow> builder \<Rightarrow> outcome" where
  "Builder_pseudoElement v this =
     (if hasPseudoElement this then (Inl (Error (numberError this)), this)
      else (Inr (), this\<lparr>selectorString := selectorString this @ ''::'' @ v,
                          hasPseudoElement := True\<rparr>))"

definition Builder_class :: "string \<Rightarrow> builder \<Rightarrow> outcome" where
  "Builder_class v this =
     (if hasAttribute this \<or> hasPseudoClass this \<or> hasPseudoElement this
        then (Inl (Error (consistenceError this)), this)
      else (Inr (), this\<lparr>selectorString := selectorString this @ ''.'' @ v,
                          hasClass := True\<rparr>))"

definition Builder_attr :: "string \<Rightarrow> builder \<Rightarrow> outcome" where
  "Builder_attr v this =
     (if hasPseudoClass this \<or> hasPseudoElement this
        then (Inl (Error (consistenceError this)), this)
      else (Inr (), this\<lparr>selectorString := selectorString this @ ''['' @ v @ '']'',
                          hasAttribute := True\<rparr>))"

definition Builder_pseudoClass :: "string \<Rightarrow> builder \<Rightarrow> outcome" where
  "Builder_pseudoClass v this =
     (if hasPseudoElement this then (Inl (Error (consistenceError this)), this)
      else (Inr (), this\<lparr>selectorString := selectorString this @ '':'' @ v,
                          hasPseudoClass := True\<rparr>))"

text \<open>
  \<^verbatim>\<open>combine\<close> reads the field \<open>selectorString\<close> of its two arguments; \<open>selector1\<close>
  and \<open>selector2\<close> are the states of those objects when the call is made. It has no
  check and cannot throw on builders. (Arguments that are not builders are the matter of
  \<open>invoke_combine\<close> below.)
\<close>

definition Builder_combine :: "builder \<Rightarrow> string \<Rightarrow> builder \<Rightarrow> builder \<Rightarrow> outcome" where
  "Builder_combine selector1 combinator selector2 this =
     (Inr (), this\<lparr>selectorString :=
                     selectorString this @ selectorString selector1 @ '' '' @ combinator
                       @ '' '' @ selectorString selector2\<rparr>)"

text \<open>\<^verbatim>\<open>stringify\<close> returns the text and leaves \<^verbatim>\<open>this\<close> with an empty buffer.\<close>

definition Builder_stringify :: "builder \<Rightarrow> string \<times> builder" where
  "Builder_stringify this = (selectorString this, this\<lparr>selectorString := ''''\<rparr>)"

section \<open>The facade cssSelectorBuilder\<close>

text \<open>
  Builders are objects, held by reference. The store lists the builders that exist; a
  reference is an index into it, and \<^verbatim>\<open>new Builder()\<close> adds one at the end. A reference
  outside the store is a reference to no object: a method call on it throws a TypeError,
  as a method call on \<^verbatim>\<open>undefined\<close> does.
\<close>

type_synonym ref = nat
type_synonym store = "builder list"

definition alloc_Builder :: "store \<Rightarrow> ref \<times> store" where
  "alloc_Builder h = (length h, h @ [new_Builder])"

text \<open>
  A method call \<^verbatim>\<open>r.method(...)\<close>: the method runs on the state of the object at \<open>r\<close>
  and that state is written back; the call returns \<^verbatim>\<open>this\<close>, the reference itself.
\<close>

definition invoke :: "(builder \<Rightarrow> outcome) \<Rightarrow> ref \<Rightarrow> store \<Rightarrow> (error + ref) \<times> store" where
  "invoke method r h =
     (if r < length h
      then (case method (h ! r) of
              (Inl e, this') \<Rightarrow> (Inl e, h[r := this'])
            | (Inr _, this') \<Rightarrow> (Inr r, h[r := this']))
      else (Inl TypeError, h))"

text \<open>
  An argument of \<^verbatim>\<open>combine\<close>, which may be any value: a reference to a builder,
  \<^verbatim>\<open>undefined\<close> or \<^verbatim>\<open>null\<close>, or another value, given by the text that the template
  literal writes for its property \<^verbatim>\<open>selectorString\<close> (\<^verbatim>\<open>undefined\<close> for a value that
  has no such property, a number for instance).
\<close>

datatype argument = Ref ref | Nullish | Other string

text \<open>
  What \<^verbatim>\<open>combine\<close> sees of an argument: reading a property of \<^verbatim>\<open>undefined\<close> or \<^verbatim>\<open>null\<close>
  throws a TypeError, as does a reference to no object; a builder is seen in its state in
  the store; of another value the method reads the property \<^verbatim>\<open>selectorString\<close> only.
\<close>

fun argument_state :: "store \<Rightarrow> argument \<Rightarrow> error + builder" where
  "argument_state h (Ref r) = (if r < length h then Inr (h ! r) else Inl TypeError)"
| "argument_state h Nullish = Inl TypeError"
| "argument_state h (Other s) = Inr (new_Builder\<lparr>selectorString := s\<rparr>)"

text \<open>
  \<^verbatim>\<open>r.combine(selector1, combinator, selector2)\<close>. The template literal reads
  \<open>selector1\<close>, then \<open>selector2\<close>, before the assignment to \<^verbatim>\<open>this.selectorString\<close>.
\<close>

definition invoke_combine ::
  "argument \<Rightarrow> string \<Rightarrow> argument \<Rightarrow> ref \<Rightarrow> store \<Rightarrow> (error + ref) \<times> store" where
  "invoke_combine selector1 combinator selector2 r h =
     (if r < length h
      then (case argument_state h selector1 of
              Inl e \<Rightarrow> (Inl e, h)
            | Inr s1 \<Rightarrow>
                (case argument_state h selector2 of
                   Inl e \<Rightarrow> (Inl e, h)
                 | Inr s2 \<Rightarrow> invoke (Builder_combine s1 combinator s2) r h))
      else (Inl TypeError, h))"

text \<open>\<^verbatim>\<open>r.stringify()\<close>, which returns a string.\<close>

definition invoke_stringify :: "ref \<Rightarrow> store \<Rightarrow> (error + string) \<times> store" where
  "invoke_stringify r h =
     (if r < length h
      then (case Builder_stringify (h ! r) of (selector, this') \<Rightarrow> (Inr selector, h[r := this']))
      else (Inl TypeError, h))"

text \<open>
  Sequencing: the next call is made on the value the previous one returned, and is not
  made at all when the previous one threw.
\<close>

definition and_then ::
  "(error + 'a) \<times> store \<Rightarrow> ('a \<Rightarrow> store \<Rightarrow> (error + 'b) \<times> store) \<Rightarrow> (error + 'b) \<times> store" where
  "and_then res f = (case res of (Inl e, h) \<Rightarrow> (Inl e, h) | (Inr x, h) \<Rightarrow> f x h)"

definition cssSelectorBuilder_element :: "string \<Rightarrow> store \<Rightarrow> (error + ref) \<times> store" where
  "cssSelectorBuilder_element v h =
     (case alloc_Builder h of (cssSelector, h') \<Rightarrow> invoke (Builder_element v) cssSelector h')"

definition cssSelectorBuilder_id :: "string \<Rightarrow> store \<Rightarrow> (error + ref) \<times> store" where
  "cssSelectorBuilder_id v h =
     (case alloc_Builder h of (cssSelector, h') \<Rightarrow> invoke (Builder_id v) cssSelector h')"

definition cssSelectorBuilder_class :: "string \<Rightarrow> store \<Rightarrow> (error + ref) \<times> store" where
  "cssSelectorBuilder_class v h =
     (case alloc_Builder h of (cssSelector, h') \<Rightarrow> invoke (Builder_class v) cssSelector h')"

definition cssSelectorBuilder_attr :: "string \<Rightarrow> store \<Rightarrow> (error + ref) \<times> store" where
  "cssSelectorBuilder_attr v h =
     (case alloc_Builder h of (cssSelector, h') \<Rightarrow> invoke (Builder_attr v) cssSelector h')"

definition cssSelectorBuilder_pseudoClass :: "string \<Rightarrow> store \<Rightarrow> (error + ref) \<times> store" where
  "cssSelectorBuilder_pseudoClass v h =
     (case alloc_Builder h of
        (cssSelector, h') \<Rightarrow> invoke (Builder_pseudoClass v) cssSelector h')"

definition cssSelectorBuilder_pseudoElement :: "string \<Rightarrow> store \<Rightarrow> (error + ref) \<times> store" where
  "cssSelectorBuilder_pseudoElement v h =
     (case alloc_Builder h of
        (cssSelector, h') \<Rightarrow> invoke (Builder_pseudoElement v) cssSelector h')"

text \<open>
  The arguments of the facade's \<^verbatim>\<open>combine\<close> are values that exist when it is called, so
  a reference among them is to an object of the store \<open>h\<close> of that moment, never to the
  builder that the call is about to create: \<open>existing h\<close> reads a reference to no
  object of \<open>h\<close> as \<^verbatim>\<open>undefined\<close>.
\<close>

fun existing :: "store \<Rightarrow> argument \<Rightarrow> argument" where
  "existing h (Ref r) = (if r < length h then Ref r else Nullish)"
| "existing h Nullish = Nullish"
| "existing h (Other s) = Other s"

definition cssSelectorBuilder_combine ::
  "argument \<Rightarrow> string \<Rightarrow> argument \<Rightarrow> store \<Rightarrow> (error + ref) \<times> store" where
  "cssSelectorBuilder_combine selector1 combinator selector2 h =
     (case alloc_Builder h of
        (cssSelector, h') \<Rightarrow>
          invoke_combine (existing h selector1) combinator (existing h selector2) cssSelector h')"

section \<open>Chains of appends\<close>

text \<open>
  The six appending methods by category, and a chain
  \<^verbatim>\<open>b.m1(v1).m2(v2)...\<close> of them on one builder: every method returns \<^verbatim>\<open>this\<close>, so
  the next call is on the same object, and the first throw ends the chain.
\<close>

datatype category = ElementC | IdC | ClassC | AttributeC | PseudoClassC | PseudoElementC

type_synonym fragment = "category \<times> string"

fun append_fragment :: "fragment \<Rightarrow> builder \<Rightarrow> outcome" where
  "append_fragment (ElementC, v) this = Builder_element v this"
| "append_fragment (IdC, v) this = Builder_id v this"
| "append_fragment (ClassC, v) this = Builder_class v this"
| "append_fragment (AttributeC, v) this = Builder_attr v this"
| "append_fragment (PseudoClassC, v) this = Builder_pseudoClass v this"
| "append_fragment (PseudoElementC, v) this = Builder_pseudoElement v this"

fun chain :: "fragment list \<Rightarrow> builder \<Rightarrow> outcome" where
  "chain [] this = (Inr (), this)"
| "chain (f # fs) this =
     (case append_fragment f this of
        (Inl e, this') \<Rightarrow> (Inl e, this')
      | (Inr _, this') \<Rightarrow> chain fs this')"

text \<open>A sequence of appends is accepted when no call of the chain on a new builder throws.\<close>

definition accepted :: "fragment list \<Rightarrow> bool" where
  "accepted fs = (case fst (chain fs new_Builder) of Inl _ \<Rightarrow> False | Inr _ \<Rightarrow> True)"

text \<open>The two errors of the builder, as the constructor words them.\<close>

definition DuplicateError :: error where
  "DuplicateError = Error numberError_text"

definition OrderError :: error where
  "OrderError = Error consistenceError_text"

section \<open>The ordering rule as the specification words it\<close>

text \<open>
  The categories in their order \<open>element < id < class < attribute < pseudoClass <
  pseudoElement\<close>, and those that may occur at most once.
\<close>

fun category_index :: "category \<Rightarrow> nat" where
  "category_index ElementC = 0"
| "category_index IdC = 1"
| "category_index ClassC = 2"
| "category_index AttributeC = 3"
| "category_index PseudoClassC = 4"
| "category_index PseudoElementC = 5"

fun at_most_one :: "category \<Rightarrow> bool" where
  "at_most_one ElementC = True"
| "at_most_one IdC = True"
| "at_most_one PseudoElementC = True"
| "at_most_one _ = False"

text \<open>
  The watermark machine of the specification: its state is the highest category index
  appended so far and the at-most-one categories seen. Appending \<open>c\<close> is legal when the
  index of \<open>c\<close> is at least the watermark and \<open>c\<close>, if an at-most-one category, has not
  been seen; then the watermark becomes the maximum of itself and the index of \<open>c\<close>.
\<close>

record watermark_state =
  watermark :: nat
  seen :: "category set"

definition watermark_init :: watermark_state where
  "watermark_init = \<lparr> watermark = 0, seen = {} \<rparr>"

definition watermark_append :: "category \<Rightarrow> watermark_state \<Rightarrow> watermark_state option" where
  "watermark_append c s =
     (if watermark s \<le> category_index c \<and> \<not> (at_most_one c \<and> c \<in> seen s)
      then Some \<lparr> watermark = max (watermark s) (category_index c),
                  seen = (if at_most_one c then insert c (seen s) else seen s) \<rparr>
      else None)"

fun watermark_run :: "category list \<Rightarrow> watermark_state \<Rightarrow> watermark_state option" where
  "watermark_run [] s = Some s"
| "watermark_run (c # cs) s =
     (case watermark_append c s of None \<Rightarrow> None | Some s' \<Rightarrow> watermark_run cs s')"

definition watermark_accepts :: "category list \<Rightarrow> bool" where
  "watermark_accepts cs = (watermark_run cs watermark_init \<noteq> None)"

text \<open>What has been appended before: a category strictly later than \<open>c\<close>, or \<open>c\<close> itself.\<close>

definition later_appended :: "category \<Rightarrow> fragment list \<Rightarrow> bool" where
  "later_appended c fs = (\<exists>d \<in> fst ` set fs. category_index c < category_index d)"

definition already_appended :: "category \<Rightarrow> fragment list \<Rightarrow> bool" where
  "already_appended c fs = (c \<in> fst ` set fs)"

text \<open>The rendering of one fragment, and the sequences that respect the category order.\<close>

fun render :: "fragment \<Rightarrow> string" where
  "render (ElementC, v) = v"
| "render (IdC, v) = ''#'' @ v"
| "render (ClassC, v) = ''.'' @ v"
| "render (AttributeC, v) = ''['' @ v @ '']''"
| "render (PseudoClassC, v) = '':'' @ v"
| "render (PseudoElementC, v) = ''::'' @ v"

definition respects_order :: "fragment list \<Rightarrow> bool" where
  "respects_order fs =
     (sorted (map (category_index \<circ> fst) fs)
      \<and> length (filter (\<lambda>f. fst f = ElementC) fs) \<le> 1
      \<and> length (filter (\<lambda>f. fst f = IdC) fs) \<le> 1
      \<and> length (filter (\<lambda>f. fst f = PseudoElementC) fs) \<le> 1)"

text \<open>
  The state of a builder after an accepted sequence of appends, and the state of the
  watermark machine after an accepted sequence of categories, in closed form.
\<close>

definition state_after :: "fragment list \<Rightarrow> builder" where
  "state_after fs =
     \<lparr> selectorString = concat (map render fs),
       hasElement = (ElementC \<in> fst ` set fs),
       hasId = False,
       hasClass = (ClassC \<in> fst ` set fs),
       hasAttribute = (AttributeC \<in> fst ` set fs),
       hasPseudoClass = (PseudoClassC \<in> fst ` set fs),
       hasPseudoElement = (PseudoElementC \<in> fst ` set fs),
       consistenceError = consistenceError_text,
       numberError = numberError_text,
       hasID = (if IdC \<in> fst ` set fs then Some True else None) \<rparr>"

definition watermark_after :: "category list \<Rightarrow> watermark_state" where
  "watermark_after cs =
     \<lparr> watermark = foldl max 0 (map category_index cs),
       seen = {c \<in> set cs. at_most_one c} \<rparr>"

section \<open>Properties of chains\<close>

lemmas Builder_defs = Builder_element_def Builder_id_def Builder_class_def Builder_attr_def
  Builder_pseudoClass_def Builder_pseudoElement_def

lemma chain_append:
  "chain (fs @ gs) this =
     (case chain fs this of (Inl e, this') \<Rightarrow> (Inl e, this') | (Inr u, this') \<Rightarrow> chain gs this')"
  by (induction fs arbitrary: this) (auto split: prod.splits sum.splits)

lemma state_after_Nil: "state_after [] = new_Builder"
  by (simp add: state_after_def new_Builder_def)

lemma append_state_after:
  "append_fragment (c, v) (state_after fs) = (Inr u, b) \<Longrightarrow> b = state_after (fs @ [(c, v)])"
  by (cases c) (auto simp: Builder_defs state_after_def split: if_splits)

lemma chain_state_after:
  "chain fs new_Builder = (Inr u, b) \<Longrightarrow> b = state_after fs"
proof (induction fs arbitrary: b u rule: rev_induct)
  case Nil
  then show ?case by (simp add: state_after_Nil)
next
  case (snoc f fs)
  obtain c v where f: "f = (c, v)" by (cases f)
  from snoc.prems obtain b' u' where 1: "chain fs new_Builder = (Inr u', b')"
    and 2: "append_fragment f b' = (Inr u, b)"
    by (auto simp: chain_append split: prod.splits sum.splits)
  from snoc.IH[OF 1] have "b' = state_after fs" .
  with 2 f show ?case using append_state_after by blast
qed

lemma later_appended_cases:
  "later_appended c fs =
     (case c of
        ElementC \<Rightarrow> IdC \<in> fst ` set fs \<or> ClassC \<in> fst ` set fs \<or> AttributeC \<in> fst ` set fs
                      \<or> PseudoClassC \<in> fst ` set fs \<or> PseudoElementC \<in> fst ` set fs
      | IdC \<Rightarrow> ClassC \<in> fst ` set fs \<or> AttributeC \<in> fst ` set fs
                      \<or> PseudoClassC \<in> fst ` set fs \<or> PseudoElementC \<in> fst ` set fs
      | ClassC \<Rightarrow> AttributeC \<in> fst ` set fs
                      \<or> PseudoClassC \<in> fst ` set fs \<or> PseudoElementC \<in> fst ` set fs
      | AttributeC \<Rightarrow> PseudoClassC \<in> fst ` set fs \<or> PseudoElementC \<in> fst ` set fs
      | PseudoClassC \<Rightarrow> PseudoElementC \<in> fst ` set fs
      | PseudoElementC \<Rightarrow> False)"
proof -
  have idx: "\<And>d P. (\<exists>d \<in> fst ` set fs. P d) =
      (P ElementC \<and> ElementC \<in> fst ` set fs \<or> P IdC \<and> IdC \<in> fst ` set fs
       \<or> P ClassC \<and> ClassC \<in> fst ` set fs \<or> P AttributeC \<and> AttributeC \<in> fst ` set fs
       \<or> P PseudoClassC \<and> PseudoClassC \<in> fst ` set fs
       \<or> P PseudoElementC \<and> PseudoElementC \<in> fst ` set fs)"
  proof -
    fix P :: "category \<Rightarrow> bool"
    show "(\<exists>d \<in> fst ` set fs. P d) =
      (P ElementC \<and> ElementC \<in> fst ` set fs \<or> P IdC \<and> IdC \<in> fst ` set fs
       \<or> P ClassC \<and> ClassC \<in> fst ` set fs \<or> P AttributeC \<and> AttributeC \<in> fst ` set fs
       \<or> P PseudoClassC \<and> PseudoClassC \<in> fst ` set fs
       \<or> P PseudoElementC \<and> PseudoElementC \<in> fst ` set fs)" (is "?L = ?R")
    proof
      assume ?L
      then obtain d where "d \<in> fst ` set fs" "P d" by blast
      then show ?R by (cases d) simp_all
    next
      assume ?R then show ?L by blast
    qed
  qed
  show ?thesis unfolding later_appended_def
    by (subst idx) (cases c; simp)
qed

lemma append_state_after_result:
  "append_fragment (c, v) (state_after fs) =
     (if at_most_one c \<and> already_appended c fs then (Inl DuplicateError, state_after fs)
      else if later_appended c fs then (Inl OrderError, state_after fs)
      else (Inr (), state_after (fs @ [(c, v)])))"
  unfolding later_appended_cases already_appended_def
  by (cases c) (auto simp: Builder_defs state_after_def DuplicateError_def OrderError_def)

lemma chain_accepted: "accepted fs \<Longrightarrow> chain fs new_Builder = (Inr (), state_after fs)"
proof -
  assume a: "accepted fs"
  obtain r b where rb: "chain fs new_Builder = (r, b)" by (cases "chain fs new_Builder")
  with a obtain u where "r = Inr u" by (auto simp: accepted_def split: sum.splits)
  with rb chain_state_after[of fs u b] show ?thesis by simp
qed

lemma chain_snoc:
  "chain (fs @ [(c, v)]) new_Builder =
     (if accepted fs then append_fragment (c, v) (state_after fs) else chain fs new_Builder)"
proof (cases "accepted fs")
  case True
  then show ?thesis by (simp add: chain_append chain_accepted split: prod.splits sum.splits)
next
  case False
  then show ?thesis
    by (auto simp: chain_append accepted_def split: prod.splits sum.splits)
qed

lemma accepted_snoc:
  "accepted (fs @ [(c, v)]) =
     (accepted fs \<and> \<not> later_appended c fs \<and> \<not> (at_most_one c \<and> already_appended c fs))"
proof (cases "accepted fs")
  case True
  then show ?thesis
    by (simp add: accepted_def[of "fs @ [(c, v)]"] chain_snoc append_state_after_result)
next
  case False
  then show ?thesis by (simp add: accepted_def[of "fs @ [(c, v)]"] chain_snoc) (simp add: accepted_def)
qed

lemma watermark_run_append:
  "watermark_run (cs @ ds) s =
     (case watermark_run cs s of None \<Rightarrow> None | Some s' \<Rightarrow> watermark_run ds s')"
  by (induction cs arbitrary: s) (auto split: option.splits)

lemma foldl_max_le:
  "(foldl max (0::nat) xs \<le> k) = (\<forall>x \<in> set xs. x \<le> k)"
  by (induction xs rule: rev_induct) auto

lemma watermark_append_after:
  "watermark_append c (watermark_after cs) =
     (if (\<forall>d \<in> set cs. category_index d \<le> category_index c) \<and> \<not> (at_most_one c \<and> c \<in> set cs)
      then Some (watermark_after (cs @ [c])) else None)"
  unfolding watermark_append_def
  by (auto simp: watermark_after_def foldl_max_le)

lemma watermark_run_after:
  "watermark_run cs watermark_init = Some s \<Longrightarrow> s = watermark_after cs"
proof (induction cs arbitrary: s rule: rev_induct)
  case Nil
  then show ?case by (simp add: watermark_init_def watermark_after_def)
next
  case (snoc c cs)
  from snoc.prems obtain s' where 1: "watermark_run cs watermark_init = Some s'"
    and 2: "watermark_append c s' = Some s"
    by (auto simp: watermark_run_append split: option.splits)
  from snoc.IH[OF 1] 2 show ?case
    by (simp add: watermark_append_after split: if_splits)
qed

lemma watermark_accepts_snoc:
  "watermark_accepts (cs @ [c]) =
     (watermark_accepts cs \<and> (\<forall>d \<in> set cs. category_index d \<le> category_index c)
        \<and> \<not> (at_most_one c \<and> c \<in> set cs))"
proof (cases "watermark_run cs watermark_init")
  case None
  then show ?thesis by (simp add: watermark_accepts_def watermark_run_append)
next
  case (Some s)
  then have "s = watermark_after cs" by (rule watermark_run_after)
  with Some show ?thesis
    by (simp add: watermark_accepts_def watermark_run_append watermark_append_after)
qed

lemma not_later_appended:
  "(\<not> later_appended c fs) = (\<forall>d \<in> set (map fst fs). category_index d \<le> category_index c)"
  by (auto simp: later_appended_def not_less)

lemma accepted_refines: "accepted fs = watermark_accepts (map fst fs)"
proof (induction fs rule: rev_induct)
  case Nil
  then show ?case by (simp add: accepted_def watermark_accepts_def)
next
  case (snoc f fs)
  obtain c v where f: "f = (c, v)" by (cases f)
  show ?case
    unfolding f using snoc.IH
    by (simp add: accepted_snoc watermark_accepts_snoc not_later_appended already_appended_def)
qed

lemmas store_defs = alloc_Builder_def invoke_def invoke_combine_def invoke_stringify_def
  and_then_def

lemma DuplicateError_neq_OrderError: "DuplicateError \<noteq> OrderError"
  by (simp add: DuplicateError_def OrderError_def numberError_text_def consistenceError_text_def)

lemma respects_order_snoc:
  "respects_order (fs @ [(c, v)]) \<Longrightarrow>
     respects_order fs \<and> \<not> later_appended c fs \<and> \<not> (at_most_one c \<and> already_appended c fs)"
proof -
  assume r: "respects_order (fs @ [(c, v)])"
  have nil: "\<And>d. length (filter (\<lambda>f. fst f = d) fs) = 0 \<Longrightarrow> d \<notin> fst ` set fs"
    by (auto simp: filter_empty_conv)
  from r have s: "sorted (map (category_index \<circ> fst) fs)"
    and le: "\<forall>f \<in> set fs. category_index (fst f) \<le> category_index c"
    by (auto simp: respects_order_def sorted_append)
  from r have cnt: "length (filter (\<lambda>f. fst f = ElementC) fs) \<le> 1"
      "length (filter (\<lambda>f. fst f = IdC) fs) \<le> 1"
      "length (filter (\<lambda>f. fst f = PseudoElementC) fs) \<le> 1"
    by (auto simp: respects_order_def split: if_splits)
  from le have "\<not> later_appended c fs" by (auto simp: later_appended_def not_less)
  moreover have "\<not> (at_most_one c \<and> already_appended c fs)"
  proof (cases c)
    case ElementC
    with r have "length (filter (\<lambda>f. fst f = ElementC) fs) = 0"
      by (simp add: respects_order_def)
    from nil[OF this] ElementC show ?thesis by (simp add: already_appended_def)
  next
    case IdC
    with r have "length (filter (\<lambda>f. fst f = IdC) fs) = 0"
      by (simp add: respects_order_def)
    from nil[OF this] IdC show ?thesis by (simp add: already_appended_def)
  next
    case PseudoElementC
    with r have "length (filter (\<lambda>f. fst f = PseudoElementC) fs) = 0"
      by (simp add: respects_order_def)
    from nil[OF this] PseudoElementC show ?thesis by (simp add: already_appended_def)
  qed simp_all
  ultimately show ?thesis using s cnt by (simp add: respects_order_def)
qed

lemma respects_order_accepted: "respects_order fs \<Longrightarrow> accepted fs"
proof (induction fs rule: rev_induct)
  case Nil
  then show ?case by (simp add: accepted_def)
next
  case (snoc f fs)
  obtain c v where f: "f = (c, v)" by (cases f)
  from snoc.prems f have "respects_order (fs @ [(c, v)])" by simp
  from respects_order_snoc[OF this] snoc.IH show ?case by (simp add: f accepted_snoc)
qed

lemma append_fragment_throw:
  "append_fragment f this = (Inl e, this') \<Longrightarrow>
     this' = this \<and> (e = Error (numberError this) \<or> e = Error (consistenceError this))"
proof -
  obtain c v where f: "f = (c, v)" by (cases f)
  assume "append_fragment f this = (Inl e, this')"
  then show ?thesis unfolding f
    by (cases c) (auto simp: Builder_defs split: if_splits)
qed

lemma chain_throw:
  "chain fs this = (Inl e, this') \<Longrightarrow>
     \<exists>pre g post. fs = pre @ g # post \<and> chain pre this = (Inr (), this')
        \<and> append_fragment g this' = (Inl e, this')"
proof (induction fs arbitrary: this)
  case Nil
  then show ?case by simp
next
  case (Cons f fs)
  obtain r b where rb: "append_fragment f this = (r, b)" by (cases "append_fragment f this")
  show ?case
  proof (cases r)
    case (Inl e')
    with rb Cons.prems have "e' = e" "b = this'" by simp_all
    with rb Inl append_fragment_throw[of f this e this'] have "this' = this" by simp
    with rb Inl \<open>e' = e\<close> \<open>b = this'\<close>
    have "f # fs = [] @ f # fs \<and> chain [] this = (Inr (), this')
        \<and> append_fragment f this' = (Inl e, this')" by simp
    then show ?thesis by blast
  next
    case (Inr u)
    with rb Cons.prems have "chain fs b = (Inl e, this')" by simp
    from Cons.IH[OF this] obtain pre g post where
      "fs = pre @ g # post" "chain pre b = (Inr (), this')" "append_fragment g this' = (Inl e, this')"
      by blast
    with rb Inr have "f # fs = (f # pre) @ g # post \<and> chain (f # pre) this = (Inr (), this')
        \<and> append_fragment g this' = (Inl e, this')" by simp
    then show ?thesis by blast
  qed
qed

section \<open>Properties of the JSON functions\<close>

subsection \<open>Numbers: reading what Number::toString has written\<close>

lemma takeWhile_prefix:
  "list_all P t \<Longrightarrow> (case rest of [] \<Rightarrow> True | c # r \<Rightarrow> \<not> P c) \<Longrightarrow>
     takeWhile P (t @ rest) = t \<and> dropWhile P (t @ rest) = rest"
  by (induction t) (auto simp: list_all_iff split: list.splits)

lemma decimal_value_snoc: "decimal_value (cs @ [c]) = 10 * decimal_value cs + (c - 48)"
  by simp

lemma decimal_digits: "decimal n \<noteq> [] \<and> list_all is_digit (decimal n)"
proof (induction n rule: decimal.induct)
  case (1 n)
  show ?case
  proof (cases "n < 10")
    case True
    then show ?thesis by (simp add: decimal.simps[of n] is_digit_def)
  next
    case False
    with 1 have "list_all is_digit (decimal (n div 10))" by simp
    moreover have "is_digit (48 + n mod 10)" by (simp add: is_digit_def)
    ultimately show ?thesis using False by (simp add: decimal.simps[of n])
  qed
qed

lemma decimal_value_decimal: "decimal_value (decimal n) = n"
proof (induction n rule: decimal.induct)
  case (1 n)
  show ?case
  proof (cases "n < 10")
    case True
    then show ?thesis by (simp add: decimal.simps[of n])
  next
    case False
    with 1 have "decimal_value (decimal (n div 10)) = n div 10" by simp
    then have "decimal_value (decimal (n div 10) @ [48 + n mod 10]) = 10 * (n div 10) + n mod 10"
      by (simp only: decimal_value_snoc)
    with False show ?thesis by (simp add: decimal.simps[of n] del: decimal_value.simps)
  qed
qed

lemma digit_chars_digits:
  "list_all (\<lambda>d. d < 10) ds \<Longrightarrow> list_all is_digit (digit_chars ds)"
  by (induction ds) (auto simp: digit_chars_def is_digit_def)

lemma digit_chars_values: "map (\<lambda>c. c - 48) (digit_chars ds) = ds"
  by (induction ds) (auto simp: digit_chars_def)

lemma zeros_digits: "list_all is_digit (replicate m 48)"
  by (induction m) (auto simp: is_digit_def)

lemma strip_zeros_id: "ds \<noteq> [] \<Longrightarrow> last ds \<noteq> 0 \<Longrightarrow> strip_zeros ds = ds"
  by (cases ds rule: rev_cases) (auto simp: strip_zeros_def)

lemma strip_zeros_replicate:
  "ds \<noteq> [] \<Longrightarrow> last ds \<noteq> 0 \<Longrightarrow> strip_zeros (ds @ replicate m 0) = ds"
proof -
  assume a: "ds \<noteq> []" "last ds \<noteq> 0"
  have "dropWhile (\<lambda>d. d = 0) (replicate m (0::nat) @ rev ds) = dropWhile (\<lambda>d. d = 0) (rev ds)"
    by (induction m) auto
  then show ?thesis using strip_zeros_id[OF a] by (simp add: strip_zeros_def)
qed

lemma dropWhile_zeros_hd: "ds \<noteq> [] \<Longrightarrow> hd ds \<noteq> 0 \<Longrightarrow> dropWhile (\<lambda>d. d = (0::nat)) ds = ds"
  by (cases ds) auto

lemma dropWhile_zeros_replicate:
  "ds \<noteq> [] \<Longrightarrow> hd ds \<noteq> 0 \<Longrightarrow>
     dropWhile (\<lambda>d. d = (0::nat)) (replicate m 0 @ ds) = ds"
  by (induction m) (auto simp: dropWhile_zeros_hd)

lemma exponent_chars_facts:
  "exponent_chars e = 0x65 # (if e < 0 then 0x2D else 0x2B) # decimal (nat \<bar>e\<bar>)"
  "valid_exponent (exponent_chars e)"
  "exponent_value (exponent_chars e) = e"
  "list_all is_number_char (exponent_chars e)"
proof -
  show 1: "exponent_chars e = 0x65 # (if e < 0 then 0x2D else 0x2B) # decimal (nat \<bar>e\<bar>)"
    by (simp add: exponent_chars_def)
  from decimal_digits[of "nat \<bar>e\<bar>"] show "valid_exponent (exponent_chars e)"
    unfolding 1 by (simp add: valid_exponent_def)
  show "exponent_value (exponent_chars e) = e"
    unfolding 1 by (simp add: exponent_value_def decimal_value_decimal del: decimal_value.simps)
  from decimal_digits[of "nat \<bar>e\<bar>"] have "list_all is_number_char (decimal (nat \<bar>e\<bar>))"
    by (simp add: list_all_iff is_number_char_def)
  then show "list_all is_number_char (exponent_chars e)"
    unfolding 1 by (simp add: is_number_char_def)
qed

lemma split_literal_positive:
  assumes "ip \<noteq> []" "list_all is_digit ip" "case r1 of [] \<Rightarrow> True | c # r \<Rightarrow> \<not> is_digit c"
  shows "split_literal (ip @ r1) =
           (False, ip, (case r1 of [] \<Rightarrow> False | c # r \<Rightarrow> c = 0x2E),
            (if (case r1 of [] \<Rightarrow> False | c # r \<Rightarrow> c = 0x2E)
             then takeWhile is_digit (tl r1) else []),
            (if (case r1 of [] \<Rightarrow> False | c # r \<Rightarrow> c = 0x2E)
             then dropWhile is_digit (tl r1) else r1))"
proof -
  from assms obtain c r where "ip = c # r" "is_digit c" by (cases ip) auto
  then have n: "(case ip @ r1 of [] \<Rightarrow> False | c # r \<Rightarrow> c = 0x2D) = False"
    by (simp add: is_digit_def)
  from takeWhile_prefix[OF assms(2,3)]
  have tw: "takeWhile is_digit (ip @ r1) = ip" and dw: "dropWhile is_digit (ip @ r1) = r1"
    by blast+
  show ?thesis
    unfolding split_literal_def Let_def n if_False tw dw ..
qed

lemma split_literal_negative:
  assumes "ip \<noteq> []" "list_all is_digit ip" "case r1 of [] \<Rightarrow> True | c # r \<Rightarrow> \<not> is_digit c"
  shows "split_literal (0x2D # ip @ r1) =
           (True, ip, (case r1 of [] \<Rightarrow> False | c # r \<Rightarrow> c = 0x2E),
            (if (case r1 of [] \<Rightarrow> False | c # r \<Rightarrow> c = 0x2E)
             then takeWhile is_digit (tl r1) else []),
            (if (case r1 of [] \<Rightarrow> False | c # r \<Rightarrow> c = 0x2E)
             then dropWhile is_digit (tl r1) else r1))"
proof -
  have n: "(case 0x2D # ip @ r1 of [] \<Rightarrow> False | c # r \<Rightarrow> c = (0x2D::nat)) = True"
    by simp
  from takeWhile_prefix[OF assms(2,3)]
  have tw: "takeWhile is_digit (ip @ r1) = ip" and dw: "dropWhile is_digit (ip @ r1) = r1"
    by blast+
  show ?thesis
    unfolding split_literal_def Let_def n if_True list.sel tw dw ..
qed

lemma split_literal_sign:
  assumes "ip \<noteq> []" "list_all is_digit ip" "case r1 of [] \<Rightarrow> True | c # r \<Rightarrow> \<not> is_digit c"
  shows "split_literal ((if negative then [0x2D] else []) @ ip @ r1) =
           (negative, ip, (case r1 of [] \<Rightarrow> False | c # r \<Rightarrow> c = 0x2E),
            (if (case r1 of [] \<Rightarrow> False | c # r \<Rightarrow> c = 0x2E)
             then takeWhile is_digit (tl r1) else []),
            (if (case r1 of [] \<Rightarrow> False | c # r \<Rightarrow> c = 0x2E)
             then dropWhile is_digit (tl r1) else r1))"
  using split_literal_positive[OF assms] split_literal_negative[OF assms]
  by (cases negative) simp_all

lemma literal_without_fraction:
  assumes "ip \<noteq> []" "list_all is_digit ip"
    and "case r2 of [] \<Rightarrow> True | c # r \<Rightarrow> \<not> is_digit c \<and> c \<noteq> 0x2E"
  shows "split_literal ((if negative then [0x2D] else []) @ ip @ r2) = (negative, ip, False, [], r2)"
proof -
  from assms(3) have t: "case r2 of [] \<Rightarrow> True | c # r \<Rightarrow> \<not> is_digit c"
    and f: "(case r2 of [] \<Rightarrow> False | c # r \<Rightarrow> c = 0x2E) = False"
    by (auto split: list.splits)
  show ?thesis unfolding split_literal_sign[OF assms(1,2) t] f if_False ..
qed

lemma literal_with_fraction:
  assumes "ip \<noteq> []" "list_all is_digit ip" "list_all is_digit fp"
    and "case r2 of [] \<Rightarrow> True | c # r \<Rightarrow> \<not> is_digit c"
  shows "split_literal ((if negative then [0x2D] else []) @ ip @ 0x2E # fp @ r2)
           = (negative, ip, True, fp, r2)"
proof -
  have t: "case 0x2E # fp @ r2 of [] \<Rightarrow> True | c # r \<Rightarrow> \<not> is_digit c"
    by (simp add: is_digit_def)
  have f: "(case 0x2E # fp @ r2 of [] \<Rightarrow> False | c # r \<Rightarrow> c = (0x2E::nat)) = True" by simp
  from takeWhile_prefix[OF assms(3,4)]
  have tw: "takeWhile is_digit (fp @ r2) = fp" and dw: "dropWhile is_digit (fp @ r2) = r2"
    by blast+
  show ?thesis unfolding split_literal_sign[OF assms(1,2) t] f if_True list.sel tw dw ..
qed

lemma exponent_start:
  "case exponent_chars e of [] \<Rightarrow> True | c # r \<Rightarrow> \<not> is_digit c \<and> c \<noteq> 0x2E"
  by (simp add: exponent_chars_def is_digit_def)

lemma exponent_start': "case exponent_chars e of [] \<Rightarrow> True | c # r \<Rightarrow> \<not> is_digit c"
  by (simp add: exponent_chars_def is_digit_def)

lemma digits_number_chars: "list_all is_digit cs \<Longrightarrow> list_all is_number_char cs"
  by (simp add: list_all_iff is_number_char_def)

lemma sign_number_chars: "list_all is_number_char (if negative then [0x2D] else [])"
  by (simp add: is_number_char_def)

lemma make_number_plain:
  assumes "ds \<noteq> []" "hd ds \<noteq> 0" "last ds \<noteq> 0"
    and "map (\<lambda>c. c - 48) (ip @ fp) = replicate z 0 @ ds @ replicate m 0"
    and "int (length ip) + e - int z = n"
  shows "make_number negative ip fp e = Decimal negative ds n"
proof -
  have nz: "ds @ replicate m 0 \<noteq> []" "hd (ds @ replicate m 0) \<noteq> 0" using assms(1,2) by simp_all
  have s: "dropWhile (\<lambda>d. d = 0) (replicate z 0 @ ds @ replicate m 0) = ds @ replicate m 0"
    by (rule dropWhile_zeros_replicate[OF nz])
  have l: "length (replicate z (0::nat) @ ds @ replicate m 0) - length (ds @ replicate m 0) = z"
    by simp
  show ?thesis
    unfolding make_number_def Let_def assms(4) s l
    using assms(1,5) strip_zeros_replicate[OF assms(1,3)] by simp
qed

lemma literal_conclusion_without_fraction:
  assumes "ip \<noteq> []" "list_all is_digit ip" "hd ip = 48 \<longrightarrow> length ip = 1"
    and "case r2 of [] \<Rightarrow> True | c # r \<Rightarrow> \<not> is_digit c \<and> c \<noteq> 0x2E"
    and "valid_exponent r2" "list_all is_number_char r2"
    and "make_number negative ip [] (exponent_value r2) = x"
  shows "is_number_literal ((if negative then [0x2D] else []) @ ip @ r2)
         \<and> StringToNumber ((if negative then [0x2D] else []) @ ip @ r2) = x"
proof -
  note sp = literal_without_fraction[OF assms(1,2,4), of negative]
  have v: "valid_number ((if negative then [0x2D] else []) @ ip @ r2)"
    unfolding valid_number_def sp using assms(1,3,5) by simp
  have c: "list_all is_number_char ((if negative then [0x2D] else []) @ ip @ r2)"
    using sign_number_chars[of negative] digits_number_chars[OF assms(2)] assms(6)
    by simp
  have "StringToNumber ((if negative then [0x2D] else []) @ ip @ r2) = x"
    unfolding StringToNumber_def sp using assms(7) by simp
  with v c assms(1) show ?thesis by (simp add: is_number_literal_def)
qed

lemma literal_conclusion_with_fraction:
  assumes "ip \<noteq> []" "list_all is_digit ip" "hd ip = 48 \<longrightarrow> length ip = 1"
    and "fp \<noteq> []" "list_all is_digit fp"
    and "case r2 of [] \<Rightarrow> True | c # r \<Rightarrow> \<not> is_digit c"
    and "valid_exponent r2" "list_all is_number_char r2"
    and "make_number negative ip fp (exponent_value r2) = x"
  shows "is_number_literal ((if negative then [0x2D] else []) @ ip @ 0x2E # fp @ r2)
         \<and> StringToNumber ((if negative then [0x2D] else []) @ ip @ 0x2E # fp @ r2) = x"
proof -
  note sp = literal_with_fraction[OF assms(1,2,5,6), of negative]
  have v: "valid_number ((if negative then [0x2D] else []) @ ip @ 0x2E # fp @ r2)"
    unfolding valid_number_def sp using assms(1,3,4,7) by simp
  have c: "list_all is_number_char ((if negative then [0x2D] else []) @ ip @ 0x2E # fp @ r2)"
    using sign_number_chars[of negative] digits_number_chars[OF assms(2)]
      digits_number_chars[OF assms(5)] assms(8)
    by (simp add: is_number_char_def)
  have "StringToNumber ((if negative then [0x2D] else []) @ ip @ 0x2E # fp @ r2) = x"
    unfolding StringToNumber_def sp using assms(9) by simp
  with v c assms(1) show ?thesis by (simp add: is_number_literal_def)
qed

lemma number_round_trip:
  assumes "wf_number x"
  shows "is_number_literal (Number_toString x) \<and> StringToNumber (Number_toString x) = x"
proof (cases x)
  case Zero
  have "make_number False [48] [] (exponent_value []) = Zero"
    by (simp add: make_number_def)
  from literal_conclusion_without_fraction[of "[48]" "[]" False Zero, OF _ _ _ _ _ _ this]
  show ?thesis unfolding Zero by (simp add: utf16_def is_digit_def valid_exponent_def)
next
  case (Decimal negative ds n)
  let ?S = "if negative then [0x2D] else []"
  let ?k = "int (length ds)"
  from assms Decimal have ne: "ds \<noteq> []" and lt: "list_all (\<lambda>d. d < 10) ds"
    and h: "hd ds \<noteq> 0" and l: "last ds \<noteq> 0" by simp_all
  have T: "Number_toString (Decimal negative ds n) = ?S @ format_decimal ds n" by simp
  have lt_take: "\<And>m. list_all (\<lambda>d. d < 10) (take m ds)"
    using lt by (auto simp: list_all_iff dest: in_set_takeD)
  have lt_drop: "\<And>m. list_all (\<lambda>d. d < 10) (drop m ds)"
    using lt by (auto simp: list_all_iff dest: in_set_dropD)
  have dig: "\<And>m. list_all is_digit (digit_chars (take m ds))"
    "\<And>m. list_all is_digit (digit_chars (drop m ds))" "list_all is_digit (digit_chars ds)"
    by (rule digit_chars_digits[OF lt_take] digit_chars_digits[OF lt_drop]
        digit_chars_digits[OF lt])+
  have hdD: "hd (digit_chars ds) \<noteq> 48" "digit_chars ds \<noteq> []"
    using ne h by (simp_all add: digit_chars_def hd_map)
  have vals: "\<And>a b. map (\<lambda>c. c - 48) (digit_chars a @ digit_chars b) = a @ b"
    by (simp add: digit_chars_values)
  have e0: "case ([]::nat list) of [] \<Rightarrow> True | c # r \<Rightarrow> \<not> is_digit c \<and> c \<noteq> 0x2E"
    "case ([]::nat list) of [] \<Rightarrow> True | c # r \<Rightarrow> \<not> is_digit c"
    "valid_exponent []" "list_all is_number_char []" "exponent_value [] = 0"
    by (simp_all add: valid_exponent_def exponent_value_def)
  have goal: "is_number_literal (?S @ format_decimal ds n)
      \<and> StringToNumber (?S @ format_decimal ds n) = Decimal negative ds n"
  proof -
    consider (integer) "?k \<le> n \<and> n \<le> 21"
      | (point) "\<not> (?k \<le> n \<and> n \<le> 21)" "0 < n \<and> n \<le> 21"
      | (small) "\<not> (?k \<le> n \<and> n \<le> 21)" "\<not> (0 < n \<and> n \<le> 21)" "-6 < n \<and> n \<le> 0"
      | (exp1) "\<not> (?k \<le> n \<and> n \<le> 21)" "\<not> (0 < n \<and> n \<le> 21)" "\<not> (-6 < n \<and> n \<le> 0)" "?k = 1"
      | (exp) "\<not> (?k \<le> n \<and> n \<le> 21)" "\<not> (0 < n \<and> n \<le> 21)" "\<not> (-6 < n \<and> n \<le> 0)" "?k \<noteq> 1"
      by blast
    then show ?thesis
    proof cases
      case integer
      let ?m = "nat (n - ?k)"
      let ?ip = "digit_chars ds @ replicate ?m 48"
      from integer have c: "(?k \<le> n \<and> n \<le> 21) = True" by simp
      have F: "format_decimal ds n = ?ip @ []"
        by (simp only: format_decimal_def Let_def c if_True append_Nil2)
      have 1: "?ip \<noteq> []" "list_all is_digit ?ip" "hd ?ip = 48 \<longrightarrow> length ?ip = 1"
        using hdD dig(3) zeros_digits[of ?m] by simp_all
      have "map (\<lambda>c. c - 48) (?ip @ []) = replicate 0 0 @ ds @ replicate ?m 0"
        by (simp add: digit_chars_values)
      from make_number_plain[OF ne h l this, of 0 n negative] integer
      have "make_number negative ?ip [] (exponent_value []) = Decimal negative ds n"
        by (simp add: e0 digit_chars_def)
      from literal_conclusion_without_fraction[OF 1 e0(1,3,4) this]
      show ?thesis unfolding F .
    next
      case point
      then have nk: "n < ?k" by arith
      let ?ip = "digit_chars (take (nat n) ds)"
      let ?fp = "digit_chars (drop (nat n) ds)"
      from point have c: "(?k \<le> n \<and> n \<le> 21) = False" "(0 < n \<and> n \<le> 21) = True"
        by simp_all
      have F: "format_decimal ds n = ?ip @ 0x2E # ?fp @ []"
        by (simp only: format_decimal_def Let_def c if_False if_True append_Cons append_Nil
            append_Nil2)
      from point obtain j where j: "nat n = Suc j" by (cases "nat n") auto
      from ne obtain a rest where ds: "ds = a # rest" by (cases ds) auto
      have tk: "take (nat n) ds \<noteq> []" "hd (take (nat n) ds) = hd ds" "drop (nat n) ds \<noteq> []"
      proof -
        from nk j ds have "j < length rest" by simp
        then show "take (nat n) ds \<noteq> []" "hd (take (nat n) ds) = hd ds"
          "drop (nat n) ds \<noteq> []" by (simp_all add: j ds)
      qed
      have 1: "?ip \<noteq> []" "list_all is_digit ?ip" "hd ?ip = 48 \<longrightarrow> length ?ip = 1"
        using tk h dig(1) by (simp_all add: digit_chars_def hd_map)
      have 2: "?fp \<noteq> []" "list_all is_digit ?fp"
        using tk dig(2) by (simp_all add: digit_chars_def)
      have "map (\<lambda>c. c - 48) (?ip @ ?fp) = replicate 0 0 @ ds @ replicate 0 0"
        by (simp add: digit_chars_values)
      from make_number_plain[OF ne h l this, of 0 n negative] point nk
      have "make_number negative ?ip ?fp (exponent_value []) = Decimal negative ds n"
        by (simp add: e0 digit_chars_def)
      from literal_conclusion_with_fraction[OF 1 2 e0(2,3,4) this]
      show ?thesis unfolding F .
    next
      case small
      let ?m = "nat (- n)"
      let ?fp = "replicate ?m 48 @ digit_chars ds"
      from small have c: "(?k \<le> n \<and> n \<le> 21) = False" "(0 < n \<and> n \<le> 21) = False"
        "(-6 < n \<and> n \<le> 0) = True" by simp_all
      have F: "format_decimal ds n = [48] @ 0x2E # ?fp @ []"
        by (simp only: format_decimal_def Let_def c if_False if_True append_Cons append_Nil
            append_Nil2 append_assoc)
      have 1: "[48::nat] \<noteq> []" "list_all is_digit [48]"
        "hd [48::nat] = 48 \<longrightarrow> length [48::nat] = 1"
        by (simp_all add: is_digit_def)
      have 2: "?fp \<noteq> []" "list_all is_digit ?fp"
        using hdD dig(3) zeros_digits[of ?m] by simp_all
      have "map (\<lambda>c. c - 48) ([48] @ ?fp) = replicate (Suc ?m) 0 @ ds @ replicate 0 0"
        by (simp add: digit_chars_values)
      from make_number_plain[OF ne h l this, of 0 n negative] small
      have "make_number negative [48] ?fp (exponent_value []) = Decimal negative ds n"
        by (simp add: e0)
      from literal_conclusion_with_fraction[OF 1 2 e0(2,3,4) this]
      show ?thesis unfolding F .
    next
      case exp1
      let ?E = "exponent_chars (n - 1)"
      from exp1 have c: "(?k \<le> n \<and> n \<le> 21) = False" "(0 < n \<and> n \<le> 21) = False"
        "(-6 < n \<and> n \<le> 0) = False" "(?k = 1) = True" by simp_all
      have F: "format_decimal ds n = digit_chars ds @ ?E"
        by (simp only: format_decimal_def Let_def c if_False if_True)
      have 1: "digit_chars ds \<noteq> []" "list_all is_digit (digit_chars ds)"
        "hd (digit_chars ds) = 48 \<longrightarrow> length (digit_chars ds) = 1"
        using hdD dig(3) by simp_all
      have "map (\<lambda>c. c - 48) (digit_chars ds @ []) = replicate 0 0 @ ds @ replicate 0 0"
        by (simp add: digit_chars_values)
      from make_number_plain[OF ne h l this, of "n - 1" n negative] exp1
      have "make_number negative (digit_chars ds) [] (exponent_value ?E) = Decimal negative ds n"
        by (simp add: exponent_chars_facts(3) digit_chars_def)
      from literal_conclusion_without_fraction[OF 1 exponent_start exponent_chars_facts(2,4) this]
      show ?thesis unfolding F .
    next
      case exp
      let ?E = "exponent_chars (n - 1)"
      let ?ip = "digit_chars (take 1 ds)"
      let ?fp = "digit_chars (drop 1 ds)"
      from exp(4) have "length ds \<noteq> 1" by simp
      moreover from ne have "length ds \<noteq> 0" by simp
      ultimately have k2: "2 \<le> length ds" by arith
      from exp have c: "(?k \<le> n \<and> n \<le> 21) = False" "(0 < n \<and> n \<le> 21) = False"
        "(-6 < n \<and> n \<le> 0) = False" "(?k = 1) = False" by simp_all
      have F: "format_decimal ds n = ?ip @ 0x2E # ?fp @ ?E"
        by (simp only: format_decimal_def Let_def c if_False if_True append_Cons append_Nil)
      from ne obtain a rest where ds: "ds = a # rest" by (cases ds) auto
      with k2 have rest: "rest \<noteq> []" by auto
      have 1: "?ip \<noteq> []" "list_all is_digit ?ip" "hd ?ip = 48 \<longrightarrow> length ?ip = 1"
        using dig(1)[of 1] by (simp_all add: ds digit_chars_def)
      have 2: "?fp \<noteq> []" "list_all is_digit ?fp"
        using dig(2)[of 1] rest by (simp_all add: ds digit_chars_def)
      have "map (\<lambda>c. c - 48) (?ip @ ?fp) = replicate 0 0 @ ds @ replicate 0 0"
        by (simp add: digit_chars_values)
      from make_number_plain[OF ne h l this, of "n - 1" n negative]
      have "make_number negative ?ip ?fp (exponent_value ?E) = Decimal negative ds n"
        by (simp add: exponent_chars_facts(3) digit_chars_def ds)
      from literal_conclusion_with_fraction[OF 1 2 exponent_start' exponent_chars_facts(2,4) this]
      show ?thesis unfolding F .
    qed
  qed
  show ?thesis unfolding Decimal T by (rule goal)
qed (use assms in simp_all)

subsection \<open>Strings: reading what QuoteJSONString has written\<close>

lemma hex_value_hex_digit: "d < 16 \<Longrightarrow> hex_value (hex_digit d) = Some d"
  by (auto simp: hex_value_def hex_digit_def)

lemma hex4: assumes "c < 65536" shows "hex4_value c = c"
proof -
  define x where "x = c div 16"
  define y where "y = x div 16"
  define z where "z = y div 16"
  have c: "c = x * 16 + c mod 16" by (simp add: x_def)
  have x: "x = y * 16 + x mod 16" by (simp add: y_def)
  have y: "y = z * 16 + y mod 16" by (simp add: z_def)
  have y': "c div 256 = y" by (simp add: y_def x_def div_mult2_eq)
  have z': "c div 4096 = z" by (simp add: z_def y_def x_def div_mult2_eq)
  have "z < 16" using assms unfolding z'[symmetric] by simp
  then have zm: "z mod 16 = z" by simp
  have "hex4_value c = z * 4096 + (y mod 16) * 256 + (x mod 16) * 16 + c mod 16"
    unfolding hex4_value_def y' z' zm x_def[symmetric] ..
  also have "\<dots> = c" using c x y by arith
  finally show ?thesis .
qed

lemma parse_units_unicode_escape_gen:
  "parse_units (unicode_escape c @ tail) = cons_unit (hex4_value c) (parse_units tail)"
proof -
  have d: "c div 4096 mod 16 < 16" "c div 256 mod 16 < 16" "c div 16 mod 16 < 16" "c mod 16 < 16"
    by simp_all
  show ?thesis
    unfolding unicode_escape_def hex4_value_def
    by (simp add: hex_value_hex_digit[OF d(1)] hex_value_hex_digit[OF d(2)]
        hex_value_hex_digit[OF d(3)] hex_value_hex_digit[OF d(4)] del: mod_less)
qed

lemma parse_units_unicode_escape:
  "c < 65536 \<Longrightarrow> parse_units (unicode_escape c @ tail) = cons_unit c (parse_units tail)"
  by (simp only: parse_units_unicode_escape_gen hex4)

lemma parse_units_literal:
  "c \<noteq> 0x22 \<Longrightarrow> c \<noteq> 0x5C \<Longrightarrow> \<not> c < 0x20 \<Longrightarrow>
     parse_units (c # tail) = cons_unit c (parse_units tail)"
  by simp

lemma parse_units_simple:
  "simple_escape e = Some u \<Longrightarrow> e \<noteq> 0x75 \<Longrightarrow>
     parse_units (0x5C # e # tail) = cons_unit u (parse_units tail)"
  by simp

lemma parse_units_end: "parse_units (0x22 # rest) = Some ([], rest)"
  by simp

lemma short_escape_simple:
  "short_escape c = Some e \<Longrightarrow> simple_escape e = Some c \<and> e \<noteq> 0x75"
  by (simp add: short_escape_def simple_escape_def split: if_splits)

lemma short_escape_None:
  "short_escape c = None \<Longrightarrow> c \<noteq> 0x22 \<and> c \<noteq> 0x5C"
  by (simp add: short_escape_def split: if_splits)

lemma parse_units_quote_units:
  "wf_string s \<Longrightarrow> parse_units (quote_units s @ 0x22 # rest) = Some (s, rest)"
proof (induction s rule: measure_induct_rule[of length])
  case (less s)
  show ?case
  proof (cases s)
    case Nil
    then show ?thesis by simp
  next
    case (Cons c cs)
    from less.prems Cons have c: "c < 65536" and cs: "wf_string cs"
      by (simp_all add: wf_string_def)
    from less.IH[of cs] cs Cons
    have ih: "parse_units (quote_units cs @ 0x22 # rest) = Some (cs, rest)" by simp
    note esc = parse_units_unicode_escape[OF c]
    show ?thesis
    proof (cases "short_escape c")
      case (Some e)
      then have q: "quote_units (c # cs) = 0x5C # e # quote_units cs" by simp
      from short_escape_simple[OF Some] have "simple_escape e = Some c" "e \<noteq> 0x75" by simp_all
      from parse_units_simple[OF this] ih show ?thesis
        unfolding Cons q by (simp add: cons_unit_def del: parse_units.simps)
    next
      case None
      from short_escape_None[OF None] have ne: "c \<noteq> 0x22" "c \<noteq> 0x5C" by simp_all
      show ?thesis
      proof (cases "c < 0x20")
        case True
        with None have q: "quote_units (c # cs) = unicode_escape c @ quote_units cs" by simp
        show ?thesis unfolding Cons q using ih
          by (simp add: esc cons_unit_def del: parse_units.simps)
      next
        case False
        note lit = parse_units_literal[OF ne False]
        show ?thesis
        proof (cases "is_leading_surrogate c")
          case lead: True
          show ?thesis
          proof (cases cs)
            case Nil
            with None False lead have q: "quote_units (c # cs) = unicode_escape c" by simp
            show ?thesis unfolding Cons q using Nil
              by (simp add: esc cons_unit_def parse_units_end del: parse_units.simps)
          next
            case (Cons d ds)
            show ?thesis
            proof (cases "is_trailing_surrogate d")
              case True
              from cs Cons have ds: "wf_string ds" by (simp add: wf_string_def)
              from True have d: "d \<noteq> 0x22" "d \<noteq> 0x5C" "\<not> d < 0x20"
                by (simp_all add: is_trailing_surrogate_def)
              from less.IH[of ds] ds Cons \<open>s = c # cs\<close>
              have ih': "parse_units (quote_units ds @ 0x22 # rest) = Some (ds, rest)" by simp
              from None False lead True Cons
              have q: "quote_units (c # cs) = c # d # quote_units ds" by simp
              show ?thesis unfolding \<open>s = c # cs\<close> q using ih' Cons
                by (simp add: lit parse_units_literal[OF d] cons_unit_def
                    del: parse_units.simps)
            next
              case nt: False
              from None False lead nt Cons
              have q: "quote_units (c # cs) = unicode_escape c @ quote_units cs" by simp
              show ?thesis unfolding \<open>s = c # cs\<close> q using ih
                by (simp add: esc cons_unit_def del: parse_units.simps)
            qed
          qed
        next
          case nl: False
          show ?thesis
          proof (cases "is_trailing_surrogate c")
            case True
            with None False nl
            have q: "quote_units (c # cs) = unicode_escape c @ quote_units cs" by simp
            show ?thesis unfolding Cons q using ih
              by (simp add: esc cons_unit_def del: parse_units.simps)
          next
            case nt: False
            with None False nl have q: "quote_units (c # cs) = c # quote_units cs" by simp
            show ?thesis unfolding Cons q using ih
              by (simp add: lit cons_unit_def del: parse_units.simps)
          qed
        qed
      qed
    qed
  qed
qed

lemma key_order_snoc_index:
  "key_order (ks @ [k]) \<Longrightarrow> array_index k = Some i \<Longrightarrow>
     \<forall>k' \<in> set ks. \<exists>j. array_index k' = Some j \<and> j < i"
proof (induction ks rule: key_order.induct)
  case 1
  then show ?case by simp
next
  case (2 k0)
  then show ?case by (auto split: option.splits)
next
  case (3 k0 k1 ks)
  from "3.prems" have t: "key_order ((k1 # ks) @ [k])" by simp
  from "3.IH"[OF t "3.prems"(2)]
  have ih: "\<forall>k' \<in> set (k1 # ks). \<exists>j. array_index k' = Some j \<and> j < i" .
  then obtain j where j: "array_index k1 = Some j" "j < i" by auto
  from "3.prems"(1) j obtain i0 where "array_index k0 = Some i0" "i0 < j"
    by (auto split: option.splits)
  with j ih show ?case by auto
qed

lemma key_order_butlast: "key_order (ks @ [k]) \<Longrightarrow> key_order ks"
  by (induction ks rule: key_order.induct) (auto split: option.splits)

lemma insert_index_end:
  "\<forall>p \<in> set ps. \<exists>j. array_index (fst p) = Some j \<and> j < i \<Longrightarrow>
     insert_index i k v ps = ps @ [(k, v)]"
  by (induction ps) auto

lemma CreateDataProperty_end:
  assumes "distinct (map fst (ps @ [(k, v)]))" and "key_order (map fst (ps @ [(k, v)]))"
  shows "CreateDataProperty k v ps = ps @ [(k, v)]"
proof -
  from assms(1) have nin: "k \<notin> fst ` set ps" by auto
  show ?thesis
  proof (cases "array_index k")
    case None
    with nin show ?thesis by (simp add: CreateDataProperty_def)
  next
    case (Some i)
    from assms(2) have "key_order (map fst ps @ [k])" by simp
    from key_order_snoc_index[OF this Some]
    have "\<forall>p \<in> set ps. \<exists>j. array_index (fst p) = Some j \<and> j < i" by auto
    from insert_index_end[OF this] nin Some show ?thesis by (simp add: CreateDataProperty_def)
  qed
qed

lemma create_properties_id:
  "distinct (map fst ps) \<Longrightarrow> key_order (map fst ps) \<Longrightarrow> create_properties ps = ps"
proof (induction ps rule: rev_induct)
  case Nil
  then show ?case by (simp add: create_properties_def)
next
  case (snoc p ps)
  obtain k v where p: "p = (k, v)" by (cases p)
  from snoc.prems have d: "distinct (map fst ps)" by simp
  from snoc.prems(2) have o: "key_order (map fst ps)"
    using key_order_butlast[of "map fst ps" "fst p"] by simp
  from snoc.IH[OF d o] have ih: "create_properties ps = ps" .
  from snoc.prems p have "CreateDataProperty k v ps = ps @ [(k, v)]"
    by (intro CreateDataProperty_end) simp_all
  with ih show ?case by (simp add: create_properties_def p)
qed

subsection \<open>The parser, one step at a time\<close>

lemma value_start_facts:
  "value_start c \<Longrightarrow> \<not> is_whitespace c \<and> c \<noteq> 0x5D \<and> c \<noteq> 0x7D \<and> c \<noteq> 0x2C \<and> c \<noteq> 0x3A"
  by (auto simp: value_start_def is_whitespace_def is_number_char_def is_digit_def)

lemma skip_whitespace_start: "\<not> is_whitespace c \<Longrightarrow> skip_whitespace (c # r) = c # r"
  by (simp add: skip_whitespace_def)

lemma parse_null:
  "parse_value rt (Suc n) (utf16 ''null'' @ rest) = Some (VNull, rest)"
  by (simp add: utf16_def skip_whitespace_def is_whitespace_def starts_with_def)

lemma parse_true:
  "parse_value rt (Suc n) (utf16 ''true'' @ rest) = Some (VBoolean True, rest)"
  by (simp add: utf16_def skip_whitespace_def is_whitespace_def starts_with_def)

lemma parse_false:
  "parse_value rt (Suc n) (utf16 ''false'' @ rest) = Some (VBoolean False, rest)"
  by (simp add: utf16_def skip_whitespace_def is_whitespace_def starts_with_def)

lemma parse_string:
  "wf_string s \<Longrightarrow> parse_value rt (Suc n) (QuoteJSONString s @ rest) = Some (VString s, rest)"
  by (simp add: QuoteJSONString_def skip_whitespace_def is_whitespace_def
      parse_units_quote_units del: parse_units.simps)

lemma number_char_facts:
  "is_number_char c \<Longrightarrow>
     \<not> is_whitespace c \<and> c \<noteq> 0x7B \<and> c \<noteq> 0x5B \<and> c \<noteq> 0x22 \<and> c \<noteq> 0x74 \<and> c \<noteq> 0x66 \<and> c \<noteq> 0x6E"
  by (auto simp: is_whitespace_def is_number_char_def is_digit_def)

lemma parse_number:
  assumes "is_number_literal t" and "terminated rest"
  shows "parse_value rt (Suc n) (t @ rest) = Some (VNumber (StringToNumber t), rest)"
proof -
  from assms(1) obtain c r where t: "t = c # r" and all: "list_all is_number_char t"
    and v: "valid_number t"
    by (cases t) (auto simp: is_number_literal_def)
  from all t have c: "is_number_char c" by simp
  note f = number_char_facts[OF c]
  from takeWhile_prefix[of is_number_char t rest] all assms(2)
  have tw: "takeWhile is_number_char (t @ rest) = t" "dropWhile is_number_char (t @ rest) = rest"
    by (simp_all add: terminated_def)
  have sw: "skip_whitespace (t @ rest) = c # (r @ rest)"
    using f t by (simp add: skip_whitespace_def)
  have nk: "\<not> starts_with (utf16 ''true'') (c # (r @ rest))"
    "\<not> starts_with (utf16 ''false'') (c # (r @ rest))"
    "\<not> starts_with (utf16 ''null'') (c # (r @ rest))"
    using f by (auto simp: starts_with_def utf16_def)
  have e: "c # (r @ rest) = t @ rest" using t by simp
  show ?thesis
    using f nk v tw
    by (simp only: parse_value.simps sw list.case if_False Let_def) (simp add: e)
qed

lemma parse_empty_array:
  "parse_value rt (Suc n) (0x5B # 0x5D # rest) = Some (VArray [] (Array_prototype rt), rest)"
  by (simp add: skip_whitespace_def is_whitespace_def)

lemma parse_empty_object:
  "parse_value rt (Suc n) (0x7B # 0x7D # rest) = Some (VObject [] (Object_prototype rt), rest)"
  by (simp add: skip_whitespace_def is_whitespace_def)

lemma parse_array:
  assumes "value_start d" and "parse_elements rt n (d # r) = Some (vs, r')"
  shows "parse_value rt (Suc n) (0x5B # d # r) = Some (VArray vs (Array_prototype rt), r')"
proof -
  from value_start_facts[OF assms(1)] have "skip_whitespace (d # r) = d # r" "d \<noteq> 0x5D"
    by (simp_all add: skip_whitespace_def)
  then show ?thesis using assms(2)
    by (simp add: skip_whitespace_start is_whitespace_def)
qed

lemma parse_object:
  assumes "parse_members rt n (0x22 # r) = Some (ms, r')"
  shows "parse_value rt (Suc n) (0x7B # 0x22 # r)
           = Some (VObject (create_properties ms) (Object_prototype rt), r')"
  using assms by (simp add: skip_whitespace_def is_whitespace_def)

lemma parse_elements_last:
  assumes "parse_value rt n cs = Some (v, 0x5D # r)"
  shows "parse_elements rt (Suc n) cs = Some ([v], r)"
  using assms by (simp add: skip_whitespace_def is_whitespace_def)

lemma parse_elements_more:
  assumes "parse_value rt n cs = Some (v, 0x2C # r)" and "parse_elements rt n r = Some (vs, r')"
  shows "parse_elements rt (Suc n) cs = Some (v # vs, r')"
  using assms by (simp add: skip_whitespace_def is_whitespace_def)

lemma parse_members_last:
  assumes "wf_string k" and "parse_value rt n cs = Some (v, 0x7D # r)"
  shows "parse_members rt (Suc n) (QuoteJSONString k @ 0x3A # cs) = Some ([(k, v)], r)"
  using assms
  by (simp add: QuoteJSONString_def skip_whitespace_def is_whitespace_def parse_units_quote_units
      del: parse_units.simps)

lemma parse_members_more:
  assumes "wf_string k" and "parse_value rt n cs = Some (v, 0x2C # r)"
    and "parse_members rt n r = Some (ms, r')"
  shows "parse_members rt (Suc n) (QuoteJSONString k @ 0x3A # cs) = Some ((k, v) # ms, r')"
  using assms
  by (simp add: QuoteJSONString_def skip_whitespace_def is_whitespace_def parse_units_quote_units
      del: parse_units.simps)

declare parse_value.simps [simp del] parse_elements.simps [simp del]
  parse_members.simps [simp del]

subsection \<open>Reading what SerializeJSONProperty has written\<close>

lemma terminated_simps:
  "terminated (0x5D # r)" "terminated (0x7D # r)" "terminated (0x2C # r)" "terminated []"
  by (simp_all add: terminated_def is_number_char_def is_digit_def)

lemma parse_elements_join:
  assumes "\<And>x n rest. x \<in> set xs \<Longrightarrow> length (T x) \<le> n \<Longrightarrow> terminated rest \<Longrightarrow>
              parse_value rt (Suc n) (T x @ rest) = Some (x, rest)"
    and "xs \<noteq> []" and "length (join [0x2C] (map T xs)) < n"
  shows "parse_elements rt (Suc n) (join [0x2C] (map T xs) @ 0x5D # rest) = Some (xs, rest)"
  using assms
proof (induction xs arbitrary: n)
  case Nil
  then show ?case by simp
next
  case (Cons x xs)
  from Cons.prems(3) obtain m where n: "n = Suc m" by (cases n) auto
  show ?case
  proof (cases xs)
    case Nil
    from Cons.prems(3) n Nil have "length (T x) \<le> m" by simp
    from Cons.prems(1)[OF _ this terminated_simps(1)]
    have "parse_value rt n (T x @ 0x5D # rest) = Some (x, 0x5D # rest)" by (simp add: n)
    from parse_elements_last[OF this] Nil show ?thesis by simp
  next
    case (Cons y ys)
    then have j: "join [0x2C] (map T (x # xs)) = T x @ 0x2C # join [0x2C] (map T xs)" by simp
    from Cons.prems(3) n j have l: "length (T x) \<le> m" "length (join [0x2C] (map T xs)) < m"
      by simp_all
    from Cons.prems(1)[OF _ l(1) terminated_simps(3)]
    have 1: "parse_value rt n (T x @ 0x2C # join [0x2C] (map T xs) @ 0x5D # rest)
             = Some (x, 0x2C # join [0x2C] (map T xs) @ 0x5D # rest)" by (simp add: n)
    have xs1: "\<And>x n rest. x \<in> set xs \<Longrightarrow> length (T x) \<le> n \<Longrightarrow> terminated rest \<Longrightarrow>
              parse_value rt (Suc n) (T x @ rest) = Some (x, rest)"
      by (rule Cons.prems(1)) simp_all
    have ne: "xs \<noteq> []" using Cons by simp
    have "parse_elements rt (Suc m) (join [0x2C] (map T xs) @ 0x5D # rest) = Some (xs, rest)"
      by (rule Cons.IH[OF xs1 ne l(2)])
    then have 2: "parse_elements rt n (join [0x2C] (map T xs) @ 0x5D # rest) = Some (xs, rest)"
      by (simp add: n)
    from parse_elements_more[OF 1 2] show ?thesis unfolding j by simp
  qed
qed

lemma parse_members_join:
  assumes "\<And>k x n rest. (k, x) \<in> set ps \<Longrightarrow> length (T x) \<le> n \<Longrightarrow> terminated rest \<Longrightarrow>
              parse_value rt (Suc n) (T x @ rest) = Some (x, rest)"
    and "\<And>k x. (k, x) \<in> set ps \<Longrightarrow> wf_string k"
    and "ps \<noteq> []"
    and "length (join [0x2C] (map (\<lambda>(k, x). QuoteJSONString k @ [0x3A] @ T x) ps)) < n"
  shows "parse_members rt (Suc n)
           (join [0x2C] (map (\<lambda>(k, x). QuoteJSONString k @ [0x3A] @ T x) ps) @ 0x7D # rest)
         = Some (ps, rest)"
  using assms
proof (induction ps arbitrary: n)
  case Nil
  then show ?case by simp
next
  case (Cons p ps)
  obtain k x where p: "p = (k, x)" by (cases p)
  let ?M = "\<lambda>(k, x). QuoteJSONString k @ [0x3A] @ T x"
  from Cons.prems(4) obtain m where n: "n = Suc m" by (cases n) auto
  from Cons.prems(2)[of k x] p have k: "wf_string k" by simp
  show ?case
  proof (cases ps)
    case Nil
    from Cons.prems(4) n Nil p have "length (T x) \<le> m" by simp
    from Cons.prems(1)[OF _ this terminated_simps(2), of k] p
    have "parse_value rt n (T x @ 0x7D # rest) = Some (x, 0x7D # rest)" by (simp add: n)
    from parse_members_last[OF k this] Nil p show ?thesis by simp
  next
    case (Cons q qs)
    then have j: "join [0x2C] (map ?M (p # ps))
        = QuoteJSONString k @ 0x3A # T x @ 0x2C # join [0x2C] (map ?M ps)"
      by (simp add: p)
    from Cons.prems(4) n j have l: "length (T x) \<le> m" "length (join [0x2C] (map ?M ps)) < m"
      by simp_all
    from Cons.prems(1)[OF _ l(1) terminated_simps(3), of k] p
    have 1: "parse_value rt n (T x @ 0x2C # join [0x2C] (map ?M ps) @ 0x7D # rest)
             = Some (x, 0x2C # join [0x2C] (map ?M ps) @ 0x7D # rest)" by (simp add: n)
    have ps1: "\<And>k x n rest. (k, x) \<in> set ps \<Longrightarrow> length (T x) \<le> n \<Longrightarrow> terminated rest \<Longrightarrow>
              parse_value rt (Suc n) (T x @ rest) = Some (x, rest)"
      using Cons.prems(1) by (meson list.set_intros(2))
    have ps2: "\<And>k x. (k, x) \<in> set ps \<Longrightarrow> wf_string k"
      using Cons.prems(2) by (meson list.set_intros(2))
    have ne: "ps \<noteq> []" using Cons by simp
    have "parse_members rt (Suc m) (join [0x2C] (map ?M ps) @ 0x7D # rest) = Some (ps, rest)"
      by (rule Cons.IH[OF ps1 ps2 ne l(2)])
    then have 2: "parse_members rt n (join [0x2C] (map ?M ps) @ 0x7D # rest) = Some (ps, rest)"
      by (simp add: n)
    from parse_members_more[OF k 1 2] show ?thesis unfolding j by (simp add: p)
  qed
qed

lemma first_error_all:
  "\<forall>x \<in> set xs. f x = Inr (g x) \<Longrightarrow> first_error (map f xs) = Inr (map g xs)"
  by (induction xs) auto

lemma map_filter_id_Some: "List.map_filter id (map (\<lambda>x. Some (f x)) xs) = map f xs"
  by (induction xs) (auto simp: List.map_filter_def)

lemma join_nonempty:
  assumes "xs \<noteq> []" and "\<forall>x \<in> set xs. T x \<noteq> []"
  shows "join sep (map T xs) \<noteq> [] \<and> hd (join sep (map T xs)) = hd (T (hd xs))"
proof (cases xs)
  case Nil
  with assms show ?thesis by simp
next
  case (Cons y ys)
  with assms show ?thesis by (cases ys) auto
qed

lemma JSON_text_eq: "SerializeJSONProperty rt v = Inr (Some t) \<Longrightarrow> JSON_text rt v = t"
  by (simp add: JSON_text_def)

lemma representable_round_trip:
  "representable rt v \<Longrightarrow>
     SerializeJSONProperty rt v = Inr (Some (JSON_text rt v))
     \<and> JSON_text rt v \<noteq> [] \<and> value_start (hd (JSON_text rt v))
     \<and> (\<forall>n rest. length (JSON_text rt v) \<le> n \<longrightarrow> terminated rest \<longrightarrow>
           parse_value rt (Suc n) (JSON_text rt v @ rest) = Some (v, rest))"
proof (induction v)
  case VUndefined
  then show ?case by simp
next
  case VNull
  show ?case by (simp add: JSON_text_def parse_null) (simp add: utf16_def value_start_def)
next
  case (VBoolean b)
  show ?case
    by (cases b) (simp_all add: JSON_text_def parse_true parse_false, simp_all add: utf16_def value_start_def)
next
  case (VNumber n)
  then have w: "wf_number n" by simp
  from number_round_trip[OF w] have l: "is_number_literal (Number_toString n)"
    and r: "StringToNumber (Number_toString n) = n" by simp_all
  from w have f: "is_finite n" by (cases n) simp_all
  from f have t: "JSON_text rt (VNumber n) = Number_toString n" by (simp add: JSON_text_def)
  from l obtain c cs where cs: "Number_toString n = c # cs" "is_number_char c"
    by (cases "Number_toString n") (auto simp: is_number_literal_def)
  show ?case
    unfolding t using f cs r parse_number[OF l]
    by (simp add: value_start_def)
next
  case (VString s)
  then have w: "wf_string s" by simp
  have t: "JSON_text rt (VString s) = QuoteJSONString s" by (simp add: JSON_text_def)
  show ?case unfolding t using parse_string[OF w]
    by (simp add: QuoteJSONString_def value_start_def)
next
  case (VFunction f ps p)
  then show ?case by simp
next
  case (VArray xs p)
  let ?T = "JSON_text rt"
  let ?J = "join [0x2C] (map ?T xs)"
  from VArray.prems[unfolded representable.simps] have p: "p = Array_prototype rt"
    and nc: "\<not> callable (Get (VArray xs p) (utf16 ''toJSON''))"
    and all: "\<forall>x \<in> set xs. representable rt x" by blast+
  from VArray.IH(1) all have ih:
    "\<And>x. x \<in> set xs \<Longrightarrow> SerializeJSONProperty rt x = Inr (Some (?T x)) \<and> ?T x \<noteq> []
        \<and> value_start (hd (?T x))
        \<and> (\<forall>n rest. length (?T x) \<le> n \<longrightarrow> terminated rest \<longrightarrow>
             parse_value rt (Suc n) (?T x @ rest) = Some (x, rest))"
    by blast
  have fe: "first_error (map (\<lambda>v. case SerializeJSONProperty rt v of
                                 Inl e \<Rightarrow> Inl e
                               | Inr None \<Rightarrow> Inr (utf16 ''null'')
                               | Inr (Some t) \<Rightarrow> Inr t) xs) = Inr (map ?T xs)"
    by (rule first_error_all) (simp add: ih)
  have ser: "SerializeJSONProperty rt (VArray xs p) = Inr (Some (0x5B # ?J @ [0x5D]))"
    using nc by (simp add: fe del: Get.simps)
  then have t: "?T (VArray xs p) = 0x5B # ?J @ [0x5D]" by (rule JSON_text_eq)
  have parse: "parse_value rt (Suc n) ((0x5B # ?J @ [0x5D]) @ rest) = Some (VArray xs p, rest)"
    if n: "length (0x5B # ?J @ [0x5D]) \<le> n" for n rest
  proof (cases xs)
    case Nil
    then show ?thesis using parse_empty_array[of rt n rest] p by simp
  next
    case (Cons y ys)
    then have ne: "xs \<noteq> []" by simp
    from join_nonempty[OF ne, of ?T "[0x2C]"] ih
    have j: "?J \<noteq> []" "hd ?J = hd (?T (hd xs))" by simp_all
    then obtain d r where dr: "?J = d # r" by (cases ?J) auto
    with j ih[of "hd xs"] ne have d: "value_start d" by simp
    from n obtain m where m: "n = Suc m" "length ?J < m" by (cases n) auto
    have "parse_elements rt (Suc m) (?J @ 0x5D # rest) = Some (xs, rest)"
      by (rule parse_elements_join[OF _ ne m(2)]) (simp add: ih)
    then have "parse_elements rt n (d # r @ 0x5D # rest) = Some (xs, rest)"
      by (simp add: m dr)
    from parse_array[OF d this] show ?thesis by (simp add: dr p)
  qed
  show ?case unfolding t using ser parse by (simp add: value_start_def)
next
  case (VObject ps p)
  let ?T = "JSON_text rt"
  let ?M = "\<lambda>(k, x). QuoteJSONString k @ [0x3A] @ ?T x"
  let ?J = "join [0x2C] (map ?M ps)"
  from VObject.prems[unfolded representable.simps] have p: "p = Object_prototype rt"
    and nc: "\<not> callable (Get (VObject ps p) (utf16 ''toJSON''))"
    and d: "distinct (map fst ps)" and o: "key_order (map fst ps)"
    and all: "\<forall>q \<in> set ps. wf_string (fst q) \<and> representable rt (snd q)"
    by blast+
  have ih:
    "\<And>k x. (k, x) \<in> set ps \<Longrightarrow> SerializeJSONProperty rt x = Inr (Some (?T x)) \<and> ?T x \<noteq> []
        \<and> value_start (hd (?T x))
        \<and> (\<forall>n rest. length (?T x) \<le> n \<longrightarrow> terminated rest \<longrightarrow>
             parse_value rt (Suc n) (?T x @ rest) = Some (x, rest))"
    using VObject.IH(1) all by fastforce
  have wk: "\<And>k x. (k, x) \<in> set ps \<Longrightarrow> wf_string k" using all by fastforce
  have fe: "first_error (map (\<lambda>(k, v). case SerializeJSONProperty rt v of
                                      Inl e \<Rightarrow> Inl e
                                    | Inr None \<Rightarrow> Inr None
                                    | Inr (Some t) \<Rightarrow> Inr (Some (QuoteJSONString k @ [0x3A] @ t))) ps)
             = Inr (map (\<lambda>q. Some (?M q)) ps)"
    by (rule first_error_all) (auto simp: ih)
  have ser: "SerializeJSONProperty rt (VObject ps p) = Inr (Some (0x7B # ?J @ [0x7D]))"
    using nc by (simp add: fe map_filter_id_Some del: Get.simps)
  then have t: "?T (VObject ps p) = 0x7B # ?J @ [0x7D]" by (rule JSON_text_eq)
  have parse: "parse_value rt (Suc n) ((0x7B # ?J @ [0x7D]) @ rest) = Some (VObject ps p, rest)"
    if n: "length (0x7B # ?J @ [0x7D]) \<le> n" for n rest
  proof (cases ps)
    case Nil
    then show ?thesis using parse_empty_object[of rt n rest] p by simp
  next
    case (Cons q qs)
    then have ne: "ps \<noteq> []" by simp
    have "\<forall>q \<in> set ps. ?M q \<noteq> []" by (auto simp: QuoteJSONString_def)
    from join_nonempty[OF ne this, of "[0x2C]"]
    have j: "?J \<noteq> []" "hd ?J = hd (?M (hd ps))" by simp_all
    have "hd (?M (hd ps)) = 0x22" by (cases "hd ps") (simp add: QuoteJSONString_def)
    with j obtain r where dr: "?J = 0x22 # r" by (cases ?J) auto
    from n obtain m where m: "n = Suc m" "length ?J < m" by (cases n) auto
    have "parse_members rt (Suc m) (?J @ 0x7D # rest) = Some (ps, rest)"
      by (rule parse_members_join[OF _ wk ne m(2)]) (simp add: ih)
    then have "parse_members rt n (0x22 # r @ 0x7D # rest) = Some (ps, rest)"
      using dr by (simp add: m)
    from parse_object[OF this] create_properties_id[OF d o] dr show ?thesis by (simp add: p)
  qed
  show ?case unfolding t using ser parse by (simp add: value_start_def)
qed

lemma stringify_parse:
  assumes "representable rt v"
  shows "ecma_JSON_stringify rt v = Inr (VString (JSON_text rt v))"
    and "ecma_JSON_parse rt (VString (JSON_text rt v)) = Inr v"
proof -
  from representable_round_trip[OF assms]
  have s: "SerializeJSONProperty rt v = Inr (Some (JSON_text rt v))"
    and p: "\<And>n rest. length (JSON_text rt v) \<le> n \<Longrightarrow> terminated rest \<Longrightarrow>
             parse_value rt (Suc n) (JSON_text rt v @ rest) = Some (v, rest)"
    by blast+
  from s show "ecma_JSON_stringify rt v = Inr (VString (JSON_text rt v))"
    by (simp add: ecma_JSON_stringify_def)
  from p[of "length (JSON_text rt v)" "[]"]
  show "ecma_JSON_parse rt (VString (JSON_text rt v)) = Inr v"
    by (simp add: ecma_JSON_parse_def ToString_def terminated_def skip_whitespace_def)
qed

lemma fromJSON_getJSON_representable:
  assumes "representable rt v"
  shows "fromJSON_getJSON (ecma_JSON_parse rt) (ecma_JSON_stringify rt) proto v
           = Object_setPrototypeOf v proto"
  using stringify_parse[OF assms]
  by (simp add: fromJSON_getJSON_def getJSON_def fromJSON_def split: sum.splits)

lemma Get_own:
  "distinct (map fst props) \<Longrightarrow> (k, v) \<in> set props \<Longrightarrow> Get (VObject props proto) k = v"
  by simp

lemma Get_inherited:
  "k \<notin> fst ` set props \<Longrightarrow> Get (VObject props proto) k = Get proto k"
  by (force split: option.splits dest: map_of_SomeD)

subsection \<open>The samples\<close>

lemma sample_simps:
  "Object_prototype sample_runtime = Object_prototype_sample"
  by (simp add: sample_runtime_def)

lemma array_index_letters: "\<not> is_digit (hd k) \<Longrightarrow> array_index k = None"
  by (cases k) (simp_all add: array_index_def)

lemma representable_getArea:
  "representable sample_runtime
     (VObject [(utf16 ''getArea'', VNumber (Decimal False [5] 1))] (Object_prototype sample_runtime))"
  by (simp add: sample_simps)
    (simp add: utf16_def wf_string_def Object_prototype_sample_def)

lemma representable_width_height:
  "representable sample_runtime
     (VObject [(utf16 ''width'', VNumber (Decimal False [1] 2)), (utf16 ''height'', VNumber (Decimal False [2] 2))]
        (Object_prototype sample_runtime))"
  by (simp add: sample_simps)
    (simp add: utf16_def wf_string_def Object_prototype_sample_def array_index_def is_digit_def)

lemma parse_members_reject:
  "\<not> is_whitespace c \<Longrightarrow> c \<noteq> 0x22 \<Longrightarrow> parse_members rt n (c # r) = None"
  by (cases n) (simp_all add: parse_members.simps skip_whitespace_def)

lemma parse_object_reject:
  "\<not> is_whitespace d \<Longrightarrow> d \<noteq> 0x7D \<Longrightarrow> d \<noteq> 0x22 \<Longrightarrow>
     parse_value rt (Suc n) (0x7B # d # r) = None"
  by (simp add: parse_value.simps skip_whitespace_def is_whitespace_def parse_members_reject)

lemma JSON_text_getArea:
  \<open>JSON_text sample_runtime
     (VObject [(utf16 ''getArea'', VNumber (Decimal False [5] 1))] (Object_prototype sample_runtime))
   = utf16 ''{"getArea":5}''\<close>
  by (simp add: JSON_text_def sample_simps)
    (simp add: utf16_def QuoteJSONString_def short_escape_def Object_prototype_sample_def
      is_leading_surrogate_def is_trailing_surrogate_def List.map_filter_def
      format_decimal_def digit_chars_def)

lemma JSON_text_width_height:
  \<open>JSON_text sample_runtime
     (VObject [(utf16 ''width'', VNumber (Decimal False [1] 2)), (utf16 ''height'', VNumber (Decimal False [2] 2))]
        (Object_prototype sample_runtime))
   = utf16 ''{"width":10,"height":20}''\<close>
  by (simp add: JSON_text_def sample_simps)
    (simp add: utf16_def QuoteJSONString_def short_escape_def Object_prototype_sample_def
      is_leading_surrogate_def is_trailing_surrogate_def List.map_filter_def
      format_decimal_def digit_chars_def)

section \<open>Theorems\<close>

text \<open>
  C1. The flags of the builder accept exactly the sequences of appends that the watermark
  machine of the specification accepts. After an accepted sequence, appending a fragment
  of category \<open>c\<close> succeeds if and only if no category strictly later than \<open>c\<close> has been
  appended and \<open>c\<close>, when it is element, id or pseudoElement, has not been appended
  itself. An append of class, attribute or pseudoClass that succeeded succeeds again.
\<close>

theorem flags_refine_watermark:
  "accepted fs = watermark_accepts (map fst fs)
   \<and> (accepted fs \<longrightarrow>
        (fst (append_fragment (c, v) (snd (chain fs new_Builder))) = Inr ())
          = (\<not> later_appended c fs \<and> \<not> (at_most_one c \<and> already_appended c fs)))
   \<and> (accepted (fs @ [(c, v)]) \<and> \<not> at_most_one c \<longrightarrow> accepted (fs @ [(c, v), (c, w)]))"
proof -
  have 1: "accepted fs \<longrightarrow>
        (fst (append_fragment (c, v) (snd (chain fs new_Builder))) = Inr ())
          = (\<not> later_appended c fs \<and> \<not> (at_most_one c \<and> already_appended c fs))"
    by (simp add: chain_accepted append_state_after_result)
  have 2: "accepted (fs @ [(c, v)]) \<and> \<not> at_most_one c \<longrightarrow> accepted (fs @ [(c, v), (c, w)])"
  proof
    assume a: "accepted (fs @ [(c, v)]) \<and> \<not> at_most_one c"
    then have "\<not> later_appended c fs" by (simp add: accepted_snoc)
    then have "\<not> later_appended c (fs @ [(c, v)])" by (simp add: later_appended_def)
    with a accepted_snoc[of "fs @ [(c, v)]" c w] show "accepted (fs @ [(c, v), (c, w)])"
      by simp
  qed
  from accepted_refines[of fs] 1 2 show ?thesis by blast
qed

theorem flags_refine_watermark_witness:
  "accepted [(ClassC, ''c1'')]
   \<and> watermark_accepts [ClassC]
   \<and> fst (append_fragment (ClassC, ''c2'') (snd (chain [(ClassC, ''c1'')] new_Builder))) = Inr ()
   \<and> accepted [(ClassC, ''c1''), (ClassC, ''c2'')]"
proof -
  have a: "accepted [(ClassC, ''c1'')]"
    by (simp add: accepted_def Builder_defs new_Builder_def)
  have b: "\<not> later_appended ClassC [(ClassC, ''c1'')]
     \<and> \<not> (at_most_one ClassC \<and> already_appended ClassC [(ClassC, ''c1'')])"
    by (simp add: later_appended_def)
  have c: "accepted ([] @ [(ClassC, ''c1'')]) \<and> \<not> at_most_one ClassC"
    using a by simp
  from flags_refine_watermark[of "[(ClassC, ''c1'')]" ClassC "''c2''" "''c2''"]
    flags_refine_watermark[of "[]" ClassC "''c1''" "''c2''"] a b c
  show ?thesis by simp
qed

text \<open>
  C2. For every sequence of appends that respects the category order, with element, id
  and pseudoElement at most once, the chain on a new builder succeeds and
  \<^verbatim>\<open>stringify()\<close> returns the renderings of the fragments, concatenated in the order
  of the appends with nothing between them.
\<close>

theorem stringify_concatenates_renderings:
  "respects_order fs \<Longrightarrow>
     fst (chain fs new_Builder) = Inr ()
     \<and> fst (Builder_stringify (snd (chain fs new_Builder))) = concat (map render fs)"
  by (simp add: chain_accepted[OF respects_order_accepted] Builder_stringify_def state_after_def)

theorem stringify_concatenates_renderings_witness:
  "respects_order [(ClassC, ''c1''), (ClassC, ''c2'')]
   \<and> fst (chain [(ClassC, ''c1''), (ClassC, ''c2'')] new_Builder) = Inr ()
   \<and> fst (Builder_stringify (snd (chain [(ClassC, ''c1''), (ClassC, ''c2'')] new_Builder)))
       = ''.c1.c2''"
proof -
  have r: "respects_order [(ClassC, ''c1''), (ClassC, ''c2'')]"
    by (simp add: respects_order_def)
  from stringify_concatenates_renderings[OF r] r show ?thesis by simp
qed

text \<open>
  C3, as stated, fails: after \<^verbatim>\<open>element('a').id('x')\<close> a category later than element is
  present, and \<^verbatim>\<open>element('b')\<close> does not raise OrderError (it raises DuplicateError).
\<close>

theorem earlier_category_counterexample:
  "accepted [(ElementC, ''a''), (IdC, ''x'')]
   \<and> later_appended ElementC [(ElementC, ''a''), (IdC, ''x'')]
   \<and> fst (append_fragment (ElementC, ''b'')
            (snd (chain [(ElementC, ''a''), (IdC, ''x'')] new_Builder))) \<noteq> Inl OrderError"
  by (simp add: accepted_def later_appended_def Builder_defs new_Builder_def OrderError_def
      numberError_text_def consistenceError_text_def)

text \<open>
  C3, amended. Appending a fragment of a category strictly earlier than some category
  already appended raises OrderError, unless the category is element or id and was itself
  already appended. The chain \<^verbatim>\<open>id(x).element(a)\<close> started from the facade raises
  OrderError at the element call: the id call returns the new builder.
\<close>

theorem earlier_category_raises_OrderError:
  "(accepted fs \<and> later_appended c fs \<and> \<not> (at_most_one c \<and> already_appended c fs)
      \<longrightarrow> fst (append_fragment (c, v) (snd (chain fs new_Builder))) = Inl OrderError)
   \<and> fst (cssSelectorBuilder_id x h) = Inr (length h)
   \<and> fst (and_then (cssSelectorBuilder_id x h) (invoke (Builder_element a))) = Inl OrderError"
proof -
  have 1: "accepted fs \<and> later_appended c fs \<and> \<not> (at_most_one c \<and> already_appended c fs)
      \<longrightarrow> fst (append_fragment (c, v) (snd (chain fs new_Builder))) = Inl OrderError"
    by (auto simp: chain_accepted append_state_after_result)
  have 2: "fst (cssSelectorBuilder_id x h) = Inr (length h)"
    by (simp add: cssSelectorBuilder_id_def store_defs Builder_id_def new_Builder_def)
  have 3: "fst (and_then (cssSelectorBuilder_id x h) (invoke (Builder_element a))) = Inl OrderError"
    by (simp add: cssSelectorBuilder_id_def store_defs Builder_id_def Builder_element_def
        new_Builder_def OrderError_def)
  from 1 2 3 show ?thesis by blast
qed

theorem earlier_category_raises_OrderError_witness:
  "accepted [(IdC, ''x'')] \<and> later_appended ElementC [(IdC, ''x'')]
   \<and> \<not> (at_most_one ElementC \<and> already_appended ElementC [(IdC, ''x'')])
   \<and> fst (append_fragment (ElementC, ''a'') (snd (chain [(IdC, ''x'')] new_Builder)))
       = Inl OrderError"
proof -
  have h: "accepted [(IdC, ''x'')] \<and> later_appended ElementC [(IdC, ''x'')]
     \<and> \<not> (at_most_one ElementC \<and> already_appended ElementC [(IdC, ''x'')])"
    by (simp add: accepted_def later_appended_def already_appended_def Builder_defs
        new_Builder_def)
  with earlier_category_raises_OrderError[of "[(IdC, ''x'')]" ElementC "''a''" "''x''" "[]" "''a''"]
  show ?thesis by blast
qed

text \<open>
  C4. Appending element, id or pseudoElement to a builder on which that category was
  already appended raises DuplicateError, whatever else was appended. The chain
  \<^verbatim>\<open>element(a).id(x).element(b)\<close> started from the facade raises DuplicateError at the
  second element call, and DuplicateError is not OrderError.
\<close>

theorem duplicate_raises_DuplicateError:
  "(accepted fs \<and> at_most_one c \<and> already_appended c fs
      \<longrightarrow> fst (append_fragment (c, v) (snd (chain fs new_Builder))) = Inl DuplicateError)
   \<and> fst (and_then (cssSelectorBuilder_element a h) (invoke (Builder_id x))) = Inr (length h)
   \<and> fst (and_then (and_then (cssSelectorBuilder_element a h) (invoke (Builder_id x)))
            (invoke (Builder_element b))) = Inl DuplicateError
   \<and> DuplicateError \<noteq> OrderError"
proof -
  have 1: "accepted fs \<and> at_most_one c \<and> already_appended c fs
      \<longrightarrow> fst (append_fragment (c, v) (snd (chain fs new_Builder))) = Inl DuplicateError"
    by (auto simp: chain_accepted append_state_after_result)
  have 2: "fst (and_then (cssSelectorBuilder_element a h) (invoke (Builder_id x))) = Inr (length h)"
    by (simp add: cssSelectorBuilder_element_def store_defs Builder_id_def Builder_element_def
        new_Builder_def)
  have 3: "fst (and_then (and_then (cssSelectorBuilder_element a h) (invoke (Builder_id x)))
            (invoke (Builder_element b))) = Inl DuplicateError"
    by (simp add: cssSelectorBuilder_element_def store_defs Builder_id_def Builder_element_def
        new_Builder_def DuplicateError_def)
  from 1 2 3 DuplicateError_neq_OrderError show ?thesis by blast
qed

theorem duplicate_raises_DuplicateError_witness:
  "accepted [(ElementC, ''a''), (IdC, ''x'')] \<and> at_most_one ElementC
   \<and> already_appended ElementC [(ElementC, ''a''), (IdC, ''x'')]
   \<and> fst (append_fragment (ElementC, ''b'')
            (snd (chain [(ElementC, ''a''), (IdC, ''x'')] new_Builder))) = Inl DuplicateError"
proof -
  have h: "accepted [(ElementC, ''a''), (IdC, ''x'')] \<and> at_most_one ElementC
     \<and> already_appended ElementC [(ElementC, ''a''), (IdC, ''x'')]"
    by (simp add: accepted_def already_appended_def Builder_defs new_Builder_def)
  with duplicate_raises_DuplicateError[of "[(ElementC, ''a''), (IdC, ''x'')]" ElementC "''b''"
      "''a''" "[]" "''x''" "''b''"]
  show ?thesis by blast
qed

text \<open>
  C5. An append that throws leaves the builder as it was: the text and every flag are
  unchanged, on the builder and in the store, and the error is one of the two errors of
  the builder. A chain that throws stops at the call that threw: the calls before it
  succeeded, and the builder is in the state they left.
\<close>

theorem failed_append_is_atomic:
  "(fst (append_fragment f this) = Inl e
      \<longrightarrow> snd (append_fragment f this) = this
          \<and> (e = Error (numberError this) \<or> e = Error (consistenceError this)))
   \<and> (fst (invoke (append_fragment f) r h) = Inl e \<longrightarrow> snd (invoke (append_fragment f) r h) = h)
   \<and> (fst (chain fs this) = Inl e
      \<longrightarrow> (\<exists>pre g post. fs = pre @ g # post
             \<and> chain pre this = (Inr (), snd (chain fs this))
             \<and> append_fragment g (snd (chain fs this)) = (Inl e, snd (chain fs this))))"
proof -
  have 1: "fst (append_fragment f this) = Inl e
      \<longrightarrow> snd (append_fragment f this) = this
          \<and> (e = Error (numberError this) \<or> e = Error (consistenceError this))"
    using append_fragment_throw[of f this e "snd (append_fragment f this)"]
    by (cases "append_fragment f this") simp
  have 2: "fst (invoke (append_fragment f) r h) = Inl e
      \<longrightarrow> snd (invoke (append_fragment f) r h) = h"
  proof (cases "r < length h")
    case True
    obtain res b where rb: "append_fragment f (h ! r) = (res, b)"
      by (cases "append_fragment f (h ! r)")
    show ?thesis
    proof (cases res)
      case (Inl e')
      with rb append_fragment_throw[of f "h ! r" e' b] have "b = h ! r" by simp
      with rb Inl True show ?thesis by (simp add: invoke_def)
    next
      case (Inr u)
      with rb True show ?thesis by (simp add: invoke_def)
    qed
  next
    case False
    then show ?thesis by (simp add: invoke_def)
  qed
  have 3: "fst (chain fs this) = Inl e
      \<longrightarrow> (\<exists>pre g post. fs = pre @ g # post
             \<and> chain pre this = (Inr (), snd (chain fs this))
             \<and> append_fragment g (snd (chain fs this)) = (Inl e, snd (chain fs this)))"
    using chain_throw[of fs this e "snd (chain fs this)"]
    by (cases "chain fs this") simp
  from 1 2 3 show ?thesis by blast
qed

theorem failed_append_is_atomic_witness:
  "fst (append_fragment (ElementC, ''b'') (state_after [(ElementC, ''a''), (IdC, ''x'')]))
     = Inl DuplicateError
   \<and> snd (append_fragment (ElementC, ''b'') (state_after [(ElementC, ''a''), (IdC, ''x'')]))
     = state_after [(ElementC, ''a''), (IdC, ''x'')]
   \<and> fst (invoke (append_fragment (ElementC, ''b'')) 0
            [state_after [(ElementC, ''a''), (IdC, ''x'')]]) = Inl DuplicateError
   \<and> snd (invoke (append_fragment (ElementC, ''b'')) 0
            [state_after [(ElementC, ''a''), (IdC, ''x'')]])
     = [state_after [(ElementC, ''a''), (IdC, ''x'')]]
   \<and> fst (chain [(ElementC, ''a''), (IdC, ''x''), (ElementC, ''b''), (ClassC, ''c'')] new_Builder)
     = Inl DuplicateError
   \<and> (\<exists>pre g post.
        [(ElementC, ''a''), (IdC, ''x''), (ElementC, ''b''), (ClassC, ''c'')] = pre @ g # post
        \<and> chain pre new_Builder
            = (Inr (), snd (chain [(ElementC, ''a''), (IdC, ''x''), (ElementC, ''b''),
                                   (ClassC, ''c'')] new_Builder))
        \<and> append_fragment g (snd (chain [(ElementC, ''a''), (IdC, ''x''), (ElementC, ''b''),
                                           (ClassC, ''c'')] new_Builder))
            = (Inl DuplicateError,
               snd (chain [(ElementC, ''a''), (IdC, ''x''), (ElementC, ''b''), (ClassC, ''c'')]
                      new_Builder)))"
proof -
  have h1: "fst (append_fragment (ElementC, ''b'') (state_after [(ElementC, ''a''), (IdC, ''x'')]))
     = Inl DuplicateError"
    by (simp add: state_after_def Builder_defs DuplicateError_def)
  have h2: "fst (invoke (append_fragment (ElementC, ''b'')) 0
            [state_after [(ElementC, ''a''), (IdC, ''x'')]]) = Inl DuplicateError"
    by (simp add: invoke_def state_after_def Builder_defs DuplicateError_def)
  have h3: "fst (chain [(ElementC, ''a''), (IdC, ''x''), (ElementC, ''b''), (ClassC, ''c'')]
                   new_Builder) = Inl DuplicateError"
    by (simp add: Builder_defs new_Builder_def DuplicateError_def)
  from failed_append_is_atomic[of "(ElementC, ''b'')"
      "state_after [(ElementC, ''a''), (IdC, ''x'')]" DuplicateError 0
      "[state_after [(ElementC, ''a''), (IdC, ''x'')]]" "[]"]
    failed_append_is_atomic[of "(ElementC, ''b'')" new_Builder DuplicateError 0 "[]"
      "[(ElementC, ''a''), (IdC, ''x''), (ElementC, ''b''), (ClassC, ''c'')]"]
    h1 h2 h3
  show ?thesis by blast
qed

text \<open>
  C6. For two builders \<open>a\<close> and \<open>b\<close> in any state and a combinator \<open>c\<close>,
  \<^verbatim>\<open>combine(a, c, b)\<close> of the facade does not throw and returns a new builder whose
  \<^verbatim>\<open>stringify()\<close> returns the text of \<open>a\<close>, a space, \<open>c\<close>, a space and the text of
  \<open>b\<close>. In particular
  \<^verbatim>\<open>combine(element('div').id('main'), '+', element('span')).stringify()\<close> is
  \<^verbatim>\<open>div#main + span\<close>.
\<close>

theorem combine_renders_both_sides:
  "(a < length h \<and> b < length h \<longrightarrow>
      fst (cssSelectorBuilder_combine (Ref a) c (Ref b) h) = Inr (length h)
      \<and> fst (and_then (cssSelectorBuilder_combine (Ref a) c (Ref b) h) invoke_stringify)
          = Inr (fst (Builder_stringify (h ! a)) @ '' '' @ c @ '' ''
                  @ fst (Builder_stringify (h ! b))))
   \<and> fst (and_then (and_then (cssSelectorBuilder_element ''div'' h) (invoke (Builder_id ''main'')))
            (\<lambda>a h1. and_then (cssSelectorBuilder_element ''span'' h1)
               (\<lambda>b h2. and_then (cssSelectorBuilder_combine (Ref a) ''+'' (Ref b) h2) invoke_stringify)))
       = Inr ''div#main + span''"
proof -
  have 1: "a < length h \<and> b < length h \<longrightarrow>
      fst (cssSelectorBuilder_combine (Ref a) c (Ref b) h) = Inr (length h)
      \<and> fst (and_then (cssSelectorBuilder_combine (Ref a) c (Ref b) h) invoke_stringify)
          = Inr (fst (Builder_stringify (h ! a)) @ '' '' @ c @ '' ''
                  @ fst (Builder_stringify (h ! b)))"
    by (simp add: cssSelectorBuilder_combine_def store_defs Builder_combine_def
        Builder_stringify_def new_Builder_def nth_append)
  have 2: "fst (and_then (and_then (cssSelectorBuilder_element ''div'' h) (invoke (Builder_id ''main'')))
            (\<lambda>a h1. and_then (cssSelectorBuilder_element ''span'' h1)
               (\<lambda>b h2. and_then (cssSelectorBuilder_combine (Ref a) ''+'' (Ref b) h2) invoke_stringify)))
       = Inr ''div#main + span''"
    by (simp add: cssSelectorBuilder_combine_def cssSelectorBuilder_element_def store_defs
        Builder_combine_def Builder_stringify_def Builder_element_def Builder_id_def
        new_Builder_def nth_append)
  from 1 2 show ?thesis by blast
qed

theorem combine_renders_both_sides_witness:
  "(0::nat) < length [state_after [(ElementC, ''tr'')], state_after [(ElementC, ''td'')]]
   \<and> (1::nat) < length [state_after [(ElementC, ''tr'')], state_after [(ElementC, ''td'')]]
   \<and> fst (and_then (cssSelectorBuilder_combine (Ref 0) '' '' (Ref 1)
             [state_after [(ElementC, ''tr'')], state_after [(ElementC, ''td'')]])
           invoke_stringify) = Inr ''tr   td''"
proof -
  have h: "(0::nat) < length [state_after [(ElementC, ''tr'')], state_after [(ElementC, ''td'')]]
     \<and> (1::nat) < length [state_after [(ElementC, ''tr'')], state_after [(ElementC, ''td'')]]"
    by simp
  with combine_renders_both_sides[of 0
      "[state_after [(ElementC, ''tr'')], state_after [(ElementC, ''td'')]]" 1 "'' ''"]
  show ?thesis by (simp add: Builder_stringify_def state_after_def)
qed

text \<open>
  C7. \<^verbatim>\<open>stringify()\<close> returns the accumulated selector text and clears the text buffer:
  for every builder, a second \<^verbatim>\<open>stringify()\<close> right after the first returns the empty
  string.
\<close>

theorem stringify_clears_buffer:
  "fst (Builder_stringify this) = selectorString this
   \<and> selectorString (snd (Builder_stringify this)) = ''''
   \<and> fst (Builder_stringify (snd (Builder_stringify this))) = ''''"
  by (simp add: Builder_stringify_def)

text \<open>
  C8, as stated, fails, in two ways. For the plain object \<^verbatim>\<open>{getArea: 5}\<close> and a
  prototype \<open>Template\<close> with a method \<^verbatim>\<open>getArea\<close>, the value that
  \<^verbatim>\<open>fromJSON(Template, getJSON(obj))\<close> returns has the number 5 as its \<^verbatim>\<open>getArea\<close>:
  that method of the prototype is not callable on it. And for the plain object
  \<^verbatim>\<open>{width: 10, height: 20}\<close> and the number 5 as \<open>proto\<close>, the call yields no value:
  \<^verbatim>\<open>Object.setPrototypeOf\<close> throws a TypeError.
\<close>

theorem shadowed_method_counterexample:
  \<open>representable sample_runtime
     (VObject [(utf16 ''getArea'', VNumber (Decimal False [5] 1))] (Object_prototype sample_runtime))
   \<and> ecma_JSON_stringify sample_runtime
       (VObject [(utf16 ''getArea'', VNumber (Decimal False [5] 1))] (Object_prototype sample_runtime))
     = Inr (VString (utf16 ''{"getArea":5}''))
   \<and> fromJSON_getJSON (ecma_JSON_parse sample_runtime) (ecma_JSON_stringify sample_runtime)
       Template
       (VObject [(utf16 ''getArea'', VNumber (Decimal False [5] 1))] (Object_prototype sample_runtime))
     = Inr (VObject [(utf16 ''getArea'', VNumber (Decimal False [5] 1))] Template)
   \<and> callable (Get Template (utf16 ''getArea''))
   \<and> \<not> callable (Get (VObject [(utf16 ''getArea'', VNumber (Decimal False [5] 1))] Template)
                    (utf16 ''getArea''))
   \<and> representable sample_runtime
       (VObject [(utf16 ''width'', VNumber (Decimal False [1] 2)), (utf16 ''height'', VNumber (Decimal False [2] 2))]
          (Object_prototype sample_runtime))
   \<and> fromJSON_getJSON (ecma_JSON_parse sample_runtime) (ecma_JSON_stringify sample_runtime)
       (VNumber (Decimal False [5] 1))
       (VObject [(utf16 ''width'', VNumber (Decimal False [1] 2)), (utf16 ''height'', VNumber (Decimal False [2] 2))]
          (Object_prototype sample_runtime))
     = Inl TypeError\<close>
proof -
  note r1 = representable_getArea
  note r2 = representable_width_height
  have s: \<open>ecma_JSON_stringify sample_runtime
       (VObject [(utf16 ''getArea'', VNumber (Decimal False [5] 1))] (Object_prototype sample_runtime))
     = Inr (VString (utf16 ''{"getArea":5}''))\<close>
    using stringify_parse(1)[OF r1] by (simp only: JSON_text_getArea)
  have f1: "fromJSON_getJSON (ecma_JSON_parse sample_runtime) (ecma_JSON_stringify sample_runtime)
       Template
       (VObject [(utf16 ''getArea'', VNumber (Decimal False [5] 1))] (Object_prototype sample_runtime))
     = Inr (VObject [(utf16 ''getArea'', VNumber (Decimal False [5] 1))] Template)"
    by (simp only: fromJSON_getJSON_representable[OF r1])
      (simp add: Object_setPrototypeOf_def Template_def)
  have c1: "callable (Get Template (utf16 ''getArea''))"
    by (simp add: Template_def)
  have c2: "\<not> callable (Get (VObject [(utf16 ''getArea'', VNumber (Decimal False [5] 1))] Template)
                    (utf16 ''getArea''))"
    by simp
  have f2: "fromJSON_getJSON (ecma_JSON_parse sample_runtime) (ecma_JSON_stringify sample_runtime)
       (VNumber (Decimal False [5] 1))
       (VObject [(utf16 ''width'', VNumber (Decimal False [1] 2)), (utf16 ''height'', VNumber (Decimal False [2] 2))]
          (Object_prototype sample_runtime))
     = Inl TypeError"
    by (simp only: fromJSON_getJSON_representable[OF r2])
      (simp add: Object_setPrototypeOf_def)
  from r1 s f1 c1 c2 r2 f2 show ?thesis by blast
qed

text \<open>
  C8, amended. Let \<open>obj\<close> be a plain object whose fields are JSON-representable (null,
  booleans, strings, finite numbers other than -0, arrays and plain objects of these,
  none with a \<^verbatim>\<open>toJSON\<close> method), and \<open>proto\<close> an object or null. Then
  \<^verbatim>\<open>fromJSON(proto, getJSON(obj))\<close>, computed by the runtime's \<^verbatim>\<open>JSON.stringify\<close>,
  \<^verbatim>\<open>JSON.parse\<close> and \<^verbatim>\<open>Object.setPrototypeOf\<close>, returns a value \<open>r\<close> whose own fields are
  those of \<open>obj\<close>, in their order; reading a field of \<open>obj\<close> on \<open>r\<close> gives the value of
  \<open>obj\<close>, whatever \<open>proto\<close> has under that name; and every method of \<open>proto\<close>, its own
  or inherited, whose name is not a field of \<open>obj\<close> is callable on \<open>r\<close>.
\<close>

theorem fromJSON_getJSON_roundtrip:
  assumes "representable rt (VObject props (Object_prototype rt))"
    and "is_object proto \<or> proto = VNull"
  shows "\<exists>r. fromJSON_getJSON (ecma_JSON_parse rt) (ecma_JSON_stringify rt) proto
                (VObject props (Object_prototype rt)) = Inr r
             \<and> own_properties r = props
             \<and> (\<forall>k v. (k, v) \<in> set props \<longrightarrow> Get r k = v)
             \<and> (\<forall>k. k \<notin> fst ` set props \<and> callable (Get proto k) \<longrightarrow> callable (Get r k))"
proof -
  from assms(1)[unfolded representable.simps] have d: "distinct (map fst props)" by blast
  have "fromJSON_getJSON (ecma_JSON_parse rt) (ecma_JSON_stringify rt) proto
          (VObject props (Object_prototype rt)) = Inr (VObject props proto)"
    using assms(2) by (simp add: fromJSON_getJSON_representable[OF assms(1)] Object_setPrototypeOf_def)
  moreover have "own_properties (VObject props proto) = props" by simp
  moreover have "\<forall>k v. (k, v) \<in> set props \<longrightarrow> Get (VObject props proto) k = v"
    using Get_own[OF d] by blast
  moreover have "\<forall>k. k \<notin> fst ` set props \<and> callable (Get proto k)
                   \<longrightarrow> callable (Get (VObject props proto) k)"
    using Get_inherited by metis
  ultimately show ?thesis by blast
qed

theorem fromJSON_getJSON_roundtrip_witness:
  \<open>representable sample_runtime
     (VObject [(utf16 ''width'', VNumber (Decimal False [1] 2)),
               (utf16 ''height'', VNumber (Decimal False [2] 2))]
        (Object_prototype sample_runtime))
   \<and> (is_object Template \<or> Template = VNull)
   \<and> ecma_JSON_stringify sample_runtime
       (VObject [(utf16 ''width'', VNumber (Decimal False [1] 2)),
                 (utf16 ''height'', VNumber (Decimal False [2] 2))]
          (Object_prototype sample_runtime))
     = Inr (VString (utf16 ''{"width":10,"height":20}''))
   \<and> fromJSON_getJSON (ecma_JSON_parse sample_runtime) (ecma_JSON_stringify sample_runtime)
       Template
       (VObject [(utf16 ''width'', VNumber (Decimal False [1] 2)),
                 (utf16 ''height'', VNumber (Decimal False [2] 2))]
          (Object_prototype sample_runtime))
     = Inr (VObject [(utf16 ''width'', VNumber (Decimal False [1] 2)),
                     (utf16 ''height'', VNumber (Decimal False [2] 2))] Template)
   \<and> own_properties (VObject [(utf16 ''width'', VNumber (Decimal False [1] 2)),
                               (utf16 ''height'', VNumber (Decimal False [2] 2))] Template)
     = [(utf16 ''width'', VNumber (Decimal False [1] 2)),
        (utf16 ''height'', VNumber (Decimal False [2] 2))]
   \<and> Get (VObject [(utf16 ''width'', VNumber (Decimal False [1] 2)),
                    (utf16 ''height'', VNumber (Decimal False [2] 2))] Template)
         (utf16 ''width'') = VNumber (Decimal False [1] 2)
   \<and> Get (VObject [(utf16 ''width'', VNumber (Decimal False [1] 2)),
                    (utf16 ''height'', VNumber (Decimal False [2] 2))] Template)
         (utf16 ''height'') = VNumber (Decimal False [2] 2)
   \<and> callable (Get (VObject [(utf16 ''width'', VNumber (Decimal False [1] 2)),
                              (utf16 ''height'', VNumber (Decimal False [2] 2))] Template)
                 (utf16 ''getArea''))\<close>
proof -
  let ?props = "[(utf16 ''width'', VNumber (Decimal False [1] 2)),
                 (utf16 ''height'', VNumber (Decimal False [2] 2))]"
  note r = representable_width_height
  have o: "is_object Template \<or> Template = VNull" by (simp add: Template_def)
  have s: \<open>ecma_JSON_stringify sample_runtime (VObject ?props (Object_prototype sample_runtime))
     = Inr (VString (utf16 ''{"width":10,"height":20}''))\<close>
    using stringify_parse(1)[OF r] by (simp only: JSON_text_width_height)
  have m: "(utf16 ''width'', VNumber (Decimal False [1] 2)) \<in> set ?props"
    "(utf16 ''height'', VNumber (Decimal False [2] 2)) \<in> set ?props" by simp_all
  have n: "utf16 ''getArea'' \<notin> fst ` set ?props \<and> callable (Get Template (utf16 ''getArea''))"
    by (simp add: Template_def utf16_def)
  have e: "fromJSON_getJSON (ecma_JSON_parse sample_runtime) (ecma_JSON_stringify sample_runtime)
          Template (VObject ?props (Object_prototype sample_runtime))
        = Inr (VObject ?props Template)"
    by (simp only: fromJSON_getJSON_representable[OF r])
      (simp add: Object_setPrototypeOf_def Template_def)
  from fromJSON_getJSON_roundtrip[OF r o] obtain r' where
    1: "fromJSON_getJSON (ecma_JSON_parse sample_runtime) (ecma_JSON_stringify sample_runtime)
          Template (VObject ?props (Object_prototype sample_runtime)) = Inr r'"
    and 2: "own_properties r' = ?props"
    and 3: "\<forall>k v. (k, v) \<in> set ?props \<longrightarrow> Get r' k = v"
    and 4: "\<forall>k. k \<notin> fst ` set ?props \<and> callable (Get Template k) \<longrightarrow> callable (Get r' k)"
    by blast
  from 1 e have r': "r' = VObject ?props Template" by simp
  from 3 m have g: "Get r' (utf16 ''width'') = VNumber (Decimal False [1] 2)"
    "Get r' (utf16 ''height'') = VNumber (Decimal False [2] 2)" by blast+
  from 4 n have c: "callable (Get r' (utf16 ''getArea''))" by blast
  from r o s e 2 g c show ?thesis unfolding r' by blast
qed

text \<open>
  C9. Whatever the prototype, when \<^verbatim>\<open>JSON.parse\<close> rejects the text, \<^verbatim>\<open>fromJSON\<close>
  fails with the very exception of the parser and returns no value.
\<close>

theorem fromJSON_surfaces_parse_error:
  "JSON_parse json = Inl e \<Longrightarrow> fromJSON JSON_parse proto json = Inl e"
  by (simp add: fromJSON_def)

theorem fromJSON_surfaces_parse_error_witness:
  "ecma_JSON_parse sample_runtime (VString (utf16 ''{not valid json'')) = Inl SyntaxError
   \<and> fromJSON (ecma_JSON_parse sample_runtime) Template (VString (utf16 ''{not valid json''))
       = Inl SyntaxError"
proof -
  have h: "ecma_JSON_parse sample_runtime (VString (utf16 ''{not valid json'')) = Inl SyntaxError"
    by (simp add: ecma_JSON_parse_def ToString_def utf16_def parse_object_reject is_whitespace_def)
  from h fromJSON_surfaces_parse_error[of "ecma_JSON_parse sample_runtime"
      "VString (utf16 ''{not valid json'')" SyntaxError Template]
  show ?thesis by simp
qed

text \<open>
  C10. \<^verbatim>\<open>combine(a, c, b)\<close> of the facade changes no builder that existed before the
  call: the states of \<open>a\<close> and \<open>b\<close> are what they were, and a \<^verbatim>\<open>stringify()\<close> on
  either of them afterwards returns its whole text.
\<close>

theorem combine_leaves_arguments_unchanged:
  "a < length h \<Longrightarrow> b < length h \<Longrightarrow>
     take (length h) (snd (cssSelectorBuilder_combine (Ref a) c (Ref b) h)) = h
     \<and> snd (cssSelectorBuilder_combine (Ref a) c (Ref b) h) ! a = h ! a
     \<and> snd (cssSelectorBuilder_combine (Ref a) c (Ref b) h) ! b = h ! b
     \<and> fst (invoke_stringify a (snd (cssSelectorBuilder_combine (Ref a) c (Ref b) h)))
         = Inr (selectorString (h ! a))
     \<and> fst (invoke_stringify b (snd (cssSelectorBuilder_combine (Ref a) c (Ref b) h)))
         = Inr (selectorString (h ! b))"
  by (simp add: cssSelectorBuilder_combine_def store_defs Builder_combine_def
      Builder_stringify_def nth_append)

theorem combine_leaves_arguments_unchanged_witness:
  "snd (cssSelectorBuilder_combine (Ref 0) ''+'' (Ref 1)
          [state_after [(ElementC, ''div'')], state_after [(ElementC, ''span'')]]) ! 0
     = state_after [(ElementC, ''div'')]
   \<and> fst (invoke_stringify 1 (snd (cssSelectorBuilder_combine (Ref 0) ''+'' (Ref 1)
          [state_after [(ElementC, ''div'')], state_after [(ElementC, ''span'')]])))
     = Inr ''span''"
proof -
  have a: "(0::nat) < length [state_after [(ElementC, ''div'')], state_after [(ElementC, ''span'')]]"
    by simp
  have b: "(1::nat) < length [state_after [(ElementC, ''div'')], state_after [(ElementC, ''span'')]]"
    by simp
  from combine_leaves_arguments_unchanged[OF a b, of "''+''"]
  show ?thesis by (simp add: state_after_def)
qed

end
